theory Spec2Isabelle
  imports Main "HOL-Library.Char_ord" "HOL-Library.List_Lexorder" "HOL-Library.Multiset"
begin

section \<open>External merge sort of fixed-width text records (sortFile.ts)\<close>

text \<open>
  A shallow embedding of the class \<open>SortFile\<close>: validation, run generation
  (\<open>sortSegments\<close>) and the k-way merge (\<open>mergeSegments\<close>), over an explicit model of
  the file system that is threaded through every operation.

  Conventions of the model.
  \<^item> A byte and a character of a JavaScript string are both a \<open>char\<close> (8 bits); strings are
    compared with the lexicographic order on character codes, which is what \<open><\<close> and
    \<open>Array.prototype.sort\<close> do on JavaScript strings.
  \<^item> The model covers files of 7-bit bytes (every byte below 0x80), the single-byte alphabet
    the program is written for. On such bytes decoding as \<open>utf8\<close> yields one character
    per byte, and encoding as \<open>ascii\<close> yields one byte per character.
  \<^item> The configuration numbers are natural numbers.
  \<^item> A path string is not a file: the file system says which file each path string
    denotes, and two strings may denote the same file.
  \<^item> The failures of the file system that are modelled are a missing path, a directory
    where a file is needed, and a file that may not be opened for reading, opened for
    writing (or created) or removed. A full disk, exhausted descriptors and a failing
    \<open>close\<close> are not modelled.
  \<^item> A rejected promise or a thrown exception is a result \<open>Inl e\<close>; the file system
    reached at that point is returned with it.
\<close>

subsection \<open>Constants\<close>

definition EOL :: string where
  "EOL = [CHR 0x0D, CHR 0x0A]"

definition TEMP_FILE_PREFIX :: string where
  "TEMP_FILE_PREFIX = ''-temp-''"

definition TEMP_FILE_EXTENSION :: string where
  "TEMP_FILE_EXTENSION = ''.txt''"

definition MAX_ASCII_CHAR :: string where
  "MAX_ASCII_CHAR = [CHR 0x7F]"

subsection \<open>Data\<close>

type_synonym path = string
type_synonym bytes = string

datatype error =
    InputNotFound
  | FileTooLarge
  | MalformedRecordWidth
  | RecordCountNotDivisible
  | OutputDirectoryMissing
  | IOFailure
  | TypeError

type_synonym 'a result = "error + 'a"

record SortFile =
  maxFileSizeBytes :: nat
  numberOfLinesPerSegment :: nat
  lineSizeBytes :: nat

text \<open>
  The file system. \<open>resolve\<close> gives the file that a path string denotes, existing or
  not, by a name chosen for that file: two spellings of one path (\<open>./a\<close> and \<open>a\<close>),
  and two links to one file, resolve to the same name. Under these names the file system
  holds the regular files with their contents, the directories with the size that
  \<open>stat\<close> reports for them, the files that may not be opened for reading, those that
  may not be opened for writing (a read-only file; a name under which nothing may be
  created) and those that may not be removed, and the multiset of the files on which a
  file handle is currently open. A file handle is represented by the file it was opened
  on.

  \<open>unlink\<close> removes the path and, with it, the file. A file that has other links stays
  on storage under them; the model does not follow them, and after a removal the
  statements below speak of the path that was removed only.
\<close>

type_synonym fileId = string

record filesystem =
  resolve :: "path \<Rightarrow> fileId"
  files :: "fileId \<rightharpoonup> bytes"
  dirs :: "fileId \<rightharpoonup> nat"
  readDenied :: "fileId set"
  writeDenied :: "fileId set"
  unlinkDenied :: "fileId set"
  handles :: "fileId multiset"

subsection \<open>Strings and buffers\<close>

text \<open>\<open>String.prototype.trim\<close>: the white space and line terminator characters that fit
  in 8 bits.\<close>

definition isWhitespace :: "char \<Rightarrow> bool" where
  "isWhitespace c = (c \<in> {CHR 0x09, CHR 0x0A, CHR 0x0B, CHR 0x0C, CHR 0x0D, CHR 0x20, CHR 0xA0})"

definition trim :: "string \<Rightarrow> string" where
  "trim s = rev (dropWhile isWhitespace (rev (dropWhile isWhitespace s)))"

text \<open>\<open>buffer.toString("ascii")\<close> unsets the highest bit of every byte.\<close>

fun unsetHighBit :: "char \<Rightarrow> char" where
  "unsetHighBit (Char b0 b1 b2 b3 b4 b5 b6 b7) = Char b0 b1 b2 b3 b4 b5 b6 False"

definition toStringAscii :: "bytes \<Rightarrow> string" where
  "toStringAscii buffer = map unsetHighBit buffer"

text \<open>\<open>buffer.toString("utf8")\<close>, on 7-bit bytes: one character per byte.\<close>

definition toStringUtf8 :: "bytes \<Rightarrow> string" where
  "toStringUtf8 buffer = buffer"

text \<open>Encoding a string of 8-bit characters as \<open>"ascii"\<close>: one byte per character.\<close>

definition bufferFromAscii :: "string \<Rightarrow> bytes" where
  "bufferFromAscii s = s"

definition Buffer_alloc :: "nat \<Rightarrow> bytes" where
  "Buffer_alloc n = replicate n (CHR 0x00)"

definition padEnd :: "string \<Rightarrow> nat \<Rightarrow> string" where
  "padEnd s n = s @ replicate (n - length s) (CHR '' '')"

fun join :: "string \<Rightarrow> string list \<Rightarrow> string" where
  "join sep [] = []"
| "join sep [x] = x"
| "join sep (x # y # ys) = x @ sep @ join sep (y # ys)"

text \<open>\<open>s.slice(0, -4)\<close>: the string without its last four characters, empty when it has
  fewer.\<close>

definition fileNameNoEnd :: "string \<Rightarrow> string" where
  "fileNameNoEnd inFilename = take (length inFilename - 4) inFilename"

text \<open>The decimal numeral that a template literal prints for a counter.\<close>

definition digitChar :: "nat \<Rightarrow> char" where
  "digitChar d = ''0123456789'' ! d"

function decimal :: "nat \<Rightarrow> string" where
  "decimal n = (if n < 10 then [digitChar n] else decimal (n div 10) @ [digitChar (n mod 10)])"
  by pat_completeness auto
termination
  by (relation "measure id") auto

declare decimal.simps [simp del]

text \<open>\<open>Array.prototype.indexOf\<close>: the first index holding the value, or \<open>-1\<close>.\<close>

fun indexOfFrom :: "string list \<Rightarrow> string \<Rightarrow> int \<Rightarrow> int" where
  "indexOfFrom [] x i = -1"
| "indexOfFrom (y # ys) x i = (if y = x then i else indexOfFrom ys x (i + 1))"

definition indexOf :: "string list \<Rightarrow> string \<Rightarrow> int" where
  "indexOf xs x = indexOfFrom xs x 0"

subsection \<open>File system operations\<close>

definition fsp_access :: "filesystem \<Rightarrow> path \<Rightarrow> bool" where
  "fsp_access fs p = (resolve fs p \<in> dom (files fs) \<or> resolve fs p \<in> dom (dirs fs))"

definition fsp_stat_size :: "filesystem \<Rightarrow> path \<Rightarrow> nat option" where
  "fsp_stat_size fs p =
     (case files fs (resolve fs p) of
        Some content \<Rightarrow> Some (length content)
      | None \<Rightarrow> dirs fs (resolve fs p))"

text \<open>\<open>fsp.open(p, "r")\<close>: fails on a missing path and on a file that may not be read;
  a directory can be opened, every read on it fails.\<close>

definition fsp_open_read :: "path \<Rightarrow> filesystem \<Rightarrow> fileId result \<times> filesystem" where
  "fsp_open_read p fs =
     (if fsp_access fs p \<and> resolve fs p \<notin> readDenied fs
      then (Inr (resolve fs p), fs\<lparr>handles := add_mset (resolve fs p) (handles fs)\<rparr>)
      else (Inl IOFailure, fs))"

text \<open>\<open>fsp.open(p, "w")\<close>: fails on a directory and on a file that may not be written;
  otherwise the file is created or truncated.\<close>

definition fsp_open_write :: "path \<Rightarrow> filesystem \<Rightarrow> fileId result \<times> filesystem" where
  "fsp_open_write p fs =
     (if resolve fs p \<in> dom (dirs fs) \<or> resolve fs p \<in> writeDenied fs then (Inl IOFailure, fs)
      else (Inr (resolve fs p),
            fs\<lparr>files := (files fs)(resolve fs p \<mapsto> []),
               handles := add_mset (resolve fs p) (handles fs)\<rparr>))"

definition fh_close :: "fileId \<Rightarrow> filesystem \<Rightarrow> filesystem" where
  "fh_close h fs = fs\<lparr>handles := handles fs - {#h#}\<rparr>"

text \<open>
  \<open>fileHandle.read(buffer, 0, len, position)\<close>: the bytes read overwrite the front of
  the buffer; the rest of the buffer keeps what it held. The result is the number of
  bytes read and the buffer.
\<close>

definition fh_read :: "filesystem \<Rightarrow> fileId \<Rightarrow> bytes \<Rightarrow> nat \<Rightarrow> nat \<Rightarrow> (nat \<times> bytes) result" where
  "fh_read fs h buffer len position =
     (case files fs h of
        None \<Rightarrow> Inl IOFailure
      | Some content \<Rightarrow>
          (let data = take len (drop position content)
           in Inr (length data, data @ drop (length data) buffer)))"

text \<open>\<open>outFile.write(data)\<close> on a handle opened with \<open>"w"\<close>: appends.\<close>

definition fh_write :: "fileId \<Rightarrow> bytes \<Rightarrow> filesystem \<Rightarrow> unit result \<times> filesystem" where
  "fh_write h data fs =
     (case files fs h of
        None \<Rightarrow> (Inl IOFailure, fs)
      | Some content \<Rightarrow> (Inr (), fs\<lparr>files := (files fs)(h \<mapsto> content @ data)\<rparr>))"

definition fsp_writeFile :: "path \<Rightarrow> bytes \<Rightarrow> filesystem \<Rightarrow> unit result \<times> filesystem" where
  "fsp_writeFile p data fs =
     (if resolve fs p \<in> dom (dirs fs) \<or> resolve fs p \<in> writeDenied fs then (Inl IOFailure, fs)
      else (Inr (), fs\<lparr>files := (files fs)(resolve fs p \<mapsto> data)\<rparr>))"

text \<open>\<open>fsp.unlink(p)\<close>: fails on a missing path, on a directory and on a file that may
  not be removed.\<close>

definition fsp_unlink :: "path \<Rightarrow> filesystem \<Rightarrow> unit result \<times> filesystem" where
  "fsp_unlink p fs =
     (if resolve fs p \<in> dom (files fs) \<and> resolve fs p \<notin> unlinkDenied fs
      then (Inr (), fs\<lparr>files := (files fs)(resolve fs p := None)\<rparr>)
      else (Inl IOFailure, fs))"

subsection \<open>Validation\<close>

definition checkFileExists :: "path \<Rightarrow> filesystem \<Rightarrow> unit result" where
  "checkFileExists filename fs = (if fsp_access fs filename then Inr () else Inl InputNotFound)"

definition checkFileSizeLimit :: "SortFile \<Rightarrow> path \<Rightarrow> filesystem \<Rightarrow> unit result" where
  "checkFileSizeLimit cfg filename fs =
     (case fsp_stat_size fs filename of
        None \<Rightarrow> Inl IOFailure
      | Some statsSize \<Rightarrow> if statsSize > maxFileSizeBytes cfg then Inl FileTooLarge else Inr ())"

text \<open>The loop of \<open>checkLineLengthAndCount\<close>; one buffer serves every read.\<close>

function checkLineLoop ::
  "SortFile \<Rightarrow> filesystem \<Rightarrow> fileId \<Rightarrow> nat \<Rightarrow> bytes \<Rightarrow> nat \<Rightarrow> nat result" where
  "checkLineLoop cfg fs fileHandle bytesRead buffer lineCount =
     (case fh_read fs fileHandle buffer (lineSizeBytes cfg) bytesRead of
        Inl e \<Rightarrow> Inl e
      | Inr (readBytes, readBuffer) \<Rightarrow>
          if readBytes = 0 then Inr lineCount
          else if length (trim (toStringAscii readBuffer)) + length EOL \<noteq> lineSizeBytes cfg
               then Inl MalformedRecordWidth
               else checkLineLoop cfg fs fileHandle (bytesRead + readBytes) readBuffer (lineCount + 1))"
  by pat_completeness auto
termination
proof (relation "measure (\<lambda>(cfg, fs, h, pos, buffer, n).
          case files fs h of None \<Rightarrow> 0 | Some content \<Rightarrow> length content - pos)")
  show "wf (measure (\<lambda>(cfg, fs, h, pos, buffer, n).
          case files fs h of None \<Rightarrow> 0 | Some content \<Rightarrow> length content - pos))"
    by simp
next
  fix cfg :: SortFile and fs :: filesystem and fileHandle :: path and bytesRead :: nat
    and buffer :: bytes and lineCount :: nat and x2 :: "nat \<times> bytes" and x1 :: nat and x2a :: bytes
  assume rd: "fh_read fs fileHandle buffer (lineSizeBytes cfg) bytesRead = Inr x2"
    and x2: "(x1, x2a) = x2" and nz: "x1 \<noteq> 0"
  from rd x2 obtain content where c: "files fs fileHandle = Some content"
    and n: "x1 = length (take (lineSizeBytes cfg) (drop bytesRead content))"
    by (auto simp: fh_read_def Let_def split: option.splits)
  from n nz have "bytesRead < length content" by auto
  with c nz show "((cfg, fs, fileHandle, bytesRead + x1, x2a, lineCount + 1),
          (cfg, fs, fileHandle, bytesRead, buffer, lineCount)) \<in>
        measure (\<lambda>(cfg, fs, h, pos, buffer, n).
          case files fs h of None \<Rightarrow> 0 | Some content \<Rightarrow> length content - pos)"
    by simp
qed

declare checkLineLoop.simps [simp del]

definition checkLineLengthAndCount :: "SortFile \<Rightarrow> filesystem \<Rightarrow> fileId \<Rightarrow> unit result" where
  "checkLineLengthAndCount cfg fs fileHandle =
     (case checkLineLoop cfg fs fileHandle 0 (Buffer_alloc (lineSizeBytes cfg)) 0 of
        Inl e \<Rightarrow> Inl e
      | Inr lineCount \<Rightarrow>
          if numberOfLinesPerSegment cfg = 0 \<or> lineCount mod numberOfLinesPerSegment cfg \<noteq> 0
          then Inl RecordCountNotDivisible
          else Inr ())"

definition validateFileContents :: "SortFile \<Rightarrow> path \<Rightarrow> filesystem \<Rightarrow> unit result \<times> filesystem" where
  "validateFileContents cfg filename fs =
     (case fsp_open_read filename fs of
        (Inl e, fs1) \<Rightarrow> (Inl e, fs1)
      | (Inr fileHandle, fs1) \<Rightarrow> (checkLineLengthAndCount cfg fs1 fileHandle, fh_close fileHandle fs1))"

definition checkOutputDirectory :: "path \<Rightarrow> filesystem \<Rightarrow> unit result" where
  "checkOutputDirectory outFilename fs =
     (if fsp_access fs outFilename then Inr () else Inl OutputDirectoryMissing)"

definition validateInput :: "SortFile \<Rightarrow> path \<Rightarrow> path \<Rightarrow> filesystem \<Rightarrow> unit result \<times> filesystem" where
  "validateInput cfg inFilename outFilename fs =
     (case checkFileExists inFilename fs of
        Inl e \<Rightarrow> (Inl e, fs)
      | Inr u \<Rightarrow>
         (case checkFileSizeLimit cfg inFilename fs of
            Inl e \<Rightarrow> (Inl e, fs)
          | Inr u \<Rightarrow>
             (case validateFileContents cfg inFilename fs of
                (Inl e, fs1) \<Rightarrow> (Inl e, fs1)
              | (Inr u, fs1) \<Rightarrow>
                 (case checkOutputDirectory outFilename fs1 of
                    Inl e \<Rightarrow> (Inl e, fs1)
                  | Inr u \<Rightarrow> (Inr (), fs1)))))"

subsection \<open>Run generation\<close>

text \<open>The loop of \<open>readSegment\<close>; the buffer is allocated once for the segment.\<close>

function readSegmentLoop ::
  "SortFile \<Rightarrow> filesystem \<Rightarrow> fileId \<Rightarrow> nat \<Rightarrow> nat \<Rightarrow> bytes \<Rightarrow> string list \<Rightarrow> string list result" where
  "readSegmentLoop cfg fs fileHandle startPosition i buffer lines =
     (if i < numberOfLinesPerSegment cfg then
        (case fh_read fs fileHandle buffer (lineSizeBytes cfg) (startPosition + i * lineSizeBytes cfg) of
           Inl e \<Rightarrow> Inl e
         | Inr (bytesRead, readBuffer) \<Rightarrow>
             if bytesRead = 0 then Inr lines
             else readSegmentLoop cfg fs fileHandle startPosition (i + 1) readBuffer
                    (lines @ [trim (toStringUtf8 readBuffer)]))
      else Inr lines)"
  by pat_completeness auto
termination
  by (relation "measure (\<lambda>(cfg, fs, h, start, i, buffer, lines). numberOfLinesPerSegment cfg - i)") auto

declare readSegmentLoop.simps [simp del]

definition readSegment :: "SortFile \<Rightarrow> filesystem \<Rightarrow> fileId \<Rightarrow> nat \<Rightarrow> string list result" where
  "readSegment cfg fs fileHandle startPosition =
     readSegmentLoop cfg fs fileHandle startPosition 0 (Buffer_alloc (lineSizeBytes cfg)) []"

definition tempFilePath :: "string \<Rightarrow> nat \<Rightarrow> path" where
  "tempFilePath nameNoEnd segmentCounter =
     nameNoEnd @ TEMP_FILE_PREFIX @ decimal segmentCounter @ TEMP_FILE_EXTENSION"

definition writeSortedSegment ::
  "string list \<Rightarrow> nat \<Rightarrow> string \<Rightarrow> filesystem \<Rightarrow> path result \<times> filesystem" where
  "writeSortedSegment lines segmentCounter nameNoEnd fs =
     (case fsp_writeFile (tempFilePath nameNoEnd segmentCounter)
             (bufferFromAscii (join EOL (sort lines) @ EOL)) fs of
        (Inl e, fs1) \<Rightarrow> (Inl e, fs1)
      | (Inr u, fs1) \<Rightarrow> (Inr (tempFilePath nameNoEnd segmentCounter), fs1))"

text \<open>
  The loop of \<open>sortSegments\<close>, over the handle opened on the input file and the input
  file name without its end. A run name may denote the input file itself; the loop ends
  all the same, since a run is never longer than \<open>numberOfLinesPerSegment\<close> lines of
  \<open>lineSizeBytes\<close> characters with their terminators, and the cursor moves on.
\<close>

function sortSegmentsLoop ::
  "SortFile \<Rightarrow> fileId \<Rightarrow> string \<Rightarrow> path list \<Rightarrow> nat \<Rightarrow> nat \<Rightarrow> filesystem
     \<Rightarrow> path list result \<times> filesystem" where
  "sortSegmentsLoop cfg fileHandle nameNoEnd segments segmentCounter bytesRead fs =
     (case readSegment cfg fs fileHandle bytesRead of
        Inl e \<Rightarrow> (Inl e, fs)
      | Inr lines \<Rightarrow>
          if length lines = 0 then (Inr segments, fs)
          else (case writeSortedSegment lines segmentCounter nameNoEnd fs of
                  (Inl e, fs1) \<Rightarrow> (Inl e, fs1)
                | (Inr path, fs1) \<Rightarrow>
                    sortSegmentsLoop cfg fileHandle nameNoEnd (segments @ [path]) (segmentCounter + 1)
                      (bytesRead + length lines * lineSizeBytes cfg) fs1))"
  by pat_completeness auto
termination
proof (relation "measure (\<lambda>(cfg, h, nameNoEnd, segments, counter, pos, fs).
          max (case files fs h of None \<Rightarrow> 0 | Some content \<Rightarrow> length content)
              (numberOfLinesPerSegment cfg * (lineSizeBytes cfg + 2) + 2) - pos)")
  show "wf (measure (\<lambda>(cfg, h, nameNoEnd, segments, counter, pos, fs).
          max (case files fs h of None \<Rightarrow> 0 | Some content \<Rightarrow> length content)
              (numberOfLinesPerSegment cfg * (lineSizeBytes cfg + 2) + 2) - pos))"
    by simp
next
  fix cfg :: SortFile and fileHandle :: fileId and nameNoEnd :: string and segments :: "path list"
    and segmentCounter :: nat and bytesRead :: nat and fs :: filesystem
    and lines :: "string list"
    and x1 :: "path result" and fs1 :: filesystem and path :: path
  assume rd: "readSegment cfg fs fileHandle bytesRead = Inr lines"
    and ne: "length lines \<noteq> 0"
    and wr: "(x1, fs1) = writeSortedSegment lines segmentCounter nameNoEnd fs"
    and x1: "x1 = Inr path"
  let ?w = "lineSizeBytes cfg"
  let ?n = "numberOfLinesPerSegment cfg"
  let ?bound = "?n * (?w + 2) + 2"
  have first: "lines = [] \<or> (\<exists>content. files fs fileHandle = Some content
        \<and> bytesRead < length content \<and> 0 < ?w)"
    using rd
    by (subst (asm) readSegment_def, subst (asm) readSegmentLoop.simps)
       (auto simp: fh_read_def Let_def split: if_splits option.splits)
  then obtain content where c: "files fs fileHandle = Some content"
    and lt: "bytesRead < length content" and w: "0 < ?w"
    using ne by auto
  have trimmed: "length (trim x) \<le> length x" for x
  proof -
    have "length (trim x) = length (dropWhile isWhitespace (rev (dropWhile isWhitespace x)))"
      by (simp add: trim_def)
    also have "\<dots> \<le> length (rev (dropWhile isWhitespace x))" by (rule length_dropWhile_le)
    also have "\<dots> = length (dropWhile isWhitespace x)" by simp
    also have "\<dots> \<le> length x" by (rule length_dropWhile_le)
    finally show ?thesis .
  qed
  have loop: "readSegmentLoop cfg fs h start i buffer acc = Inr ls \<Longrightarrow> length buffer = ?w \<Longrightarrow>
      length acc \<le> i \<Longrightarrow> i \<le> ?n \<Longrightarrow> \<forall>l\<in>set acc. length l \<le> ?w \<Longrightarrow>
      length ls \<le> ?n \<and> (\<forall>l\<in>set ls. length l \<le> ?w)" for h start i buffer acc ls
  proof (induction cfg fs h start i buffer acc rule: readSegmentLoop.induct)
    case (1 cfg fs fileHandle startPosition i buffer lines)
    show ?case
    proof (cases "i < numberOfLinesPerSegment cfg")
      case False
      with "1.prems" show ?thesis
        by (subst (asm) readSegmentLoop.simps) auto
    next
      case True
      from "1.prems"(1) True obtain bytesRead readBuffer
        where r: "fh_read fs fileHandle buffer (lineSizeBytes cfg) (startPosition + i * lineSizeBytes cfg)
            = Inr (bytesRead, readBuffer)"
        by (subst (asm) readSegmentLoop.simps) (auto split: sum.splits)
      then have lb: "length readBuffer = lineSizeBytes cfg"
        using "1.prems"(2) by (auto simp: fh_read_def Let_def split: option.splits)
      show ?thesis
      proof (cases "bytesRead = 0")
        case True
        with "1.prems" r \<open>i < numberOfLinesPerSegment cfg\<close> show ?thesis
          by (subst (asm) readSegmentLoop.simps) auto
      next
        case False
        with "1.prems"(1) r True
        have rec: "readSegmentLoop cfg fs fileHandle startPosition (i + 1) readBuffer
            (lines @ [trim (toStringUtf8 readBuffer)]) = Inr ls"
          by (subst (asm) readSegmentLoop.simps) simp
        have "length (trim (toStringUtf8 readBuffer)) \<le> lineSizeBytes cfg"
          using trimmed [of "toStringUtf8 readBuffer"] lb by (simp add: toStringUtf8_def)
        with "1.IH" [OF True r [symmetric, THEN sym] refl False rec lb] "1.prems"(3,4,5) True
        show ?thesis by auto
      qed
    qed
  qed
  have "length lines \<le> ?n \<and> (\<forall>l\<in>set lines. length l \<le> ?w)"
    using rd unfolding readSegment_def
    by (rule loop) (simp_all add: Buffer_alloc_def)
  then have sorted_bound: "length (sort lines) \<le> ?n" "\<forall>l\<in>set (sort lines). length l \<le> ?w"
    by simp_all
  have joined: "\<forall>l\<in>set ls. length l \<le> ?w \<Longrightarrow> length (join EOL ls) \<le> length ls * (?w + 2)" for ls
    by (induction EOL ls rule: join.induct) (auto simp: EOL_def)
  have "length (join EOL (sort lines) @ EOL) \<le> length (sort lines) * (?w + 2) + 2"
    using joined [OF sorted_bound(2)] by (simp add: EOL_def)
  also have "\<dots> \<le> ?bound"
    using mult_le_mono1 [OF sorted_bound(1), of "?w + 2"] by (simp only: add_le_cancel_right)
  finally have run: "length (bufferFromAscii (join EOL (sort lines) @ EOL)) \<le> ?bound"
    by (simp add: bufferFromAscii_def)
  have after: "(case files fs1 fileHandle of None \<Rightarrow> 0 | Some content \<Rightarrow> length content)
      \<le> max (length content) ?bound"
    using wr [symmetric] x1 c run
    by (auto simp: writeSortedSegment_def fsp_writeFile_def split: if_splits prod.splits sum.splits)
  from ne w have step: "0 < length lines * ?w"
    by (cases lines) simp_all
  have "max (case files fs1 fileHandle of None \<Rightarrow> 0 | Some content \<Rightarrow> length content) ?bound
      \<le> max (length content) ?bound"
    using after by (rule max.boundedI) (rule max.cobounded2)
  moreover have "bytesRead < max (length content) ?bound"
    using lt by (rule less_le_trans) (rule max.cobounded1)
  ultimately
  have "max (case files fs1 fileHandle of None \<Rightarrow> 0 | Some content \<Rightarrow> length content) ?bound
        - (bytesRead + length lines * ?w)
      < max (length content) ?bound - bytesRead"
    using step by linarith
  then show "((cfg, fileHandle, nameNoEnd, segments @ [path], segmentCounter + 1,
            bytesRead + length lines * lineSizeBytes cfg, fs1),
           (cfg, fileHandle, nameNoEnd, segments, segmentCounter, bytesRead, fs)) \<in>
        measure (\<lambda>(cfg, h, nameNoEnd, segments, counter, pos, fs).
          max (case files fs h of None \<Rightarrow> 0 | Some content \<Rightarrow> length content)
              (numberOfLinesPerSegment cfg * (lineSizeBytes cfg + 2) + 2) - pos)"
    using c by simp
qed

declare sortSegmentsLoop.simps [simp del]

definition sortSegments :: "SortFile \<Rightarrow> path \<Rightarrow> filesystem \<Rightarrow> path list result \<times> filesystem" where
  "sortSegments cfg inFilename fs =
     (case fsp_open_read inFilename fs of
        (Inl e, fs1) \<Rightarrow> (Inl e, fs1)
      | (Inr fileHandle, fs1) \<Rightarrow>
          (case sortSegmentsLoop cfg fileHandle (fileNameNoEnd inFilename) [] 0 0 fs1 of
             (r, fs2) \<Rightarrow> (r, fh_close fileHandle fs2)))"

subsection \<open>Merging\<close>

text \<open>\<open>Promise.all(segments.map((segment) => fsp.open(segment, "r")))\<close>: every open is
  started; the result is the list of handles, or the first failure.\<close>

fun openSegments :: "path list \<Rightarrow> filesystem \<Rightarrow> fileId list result \<times> filesystem" where
  "openSegments [] fs = (Inr [], fs)"
| "openSegments (segment # rest) fs =
     (case fsp_open_read segment fs of
        (Inl e, fs1) \<Rightarrow> (case openSegments rest fs1 of (r, fs2) \<Rightarrow> (Inl e, fs2))
      | (Inr h, fs1) \<Rightarrow>
          (case openSegments rest fs1 of
             (Inl e, fs2) \<Rightarrow> (Inl e, fs2)
           | (Inr hs, fs2) \<Rightarrow> (Inr (h # hs), fs2)))"

fun readInitialLines :: "SortFile \<Rightarrow> filesystem \<Rightarrow> fileId list \<Rightarrow> string list result" where
  "readInitialLines cfg fs [] = Inr []"
| "readInitialLines cfg fs (h # hs) =
     (case fh_read fs h (Buffer_alloc (lineSizeBytes cfg)) (lineSizeBytes cfg) 0 of
        Inl e \<Rightarrow> Inl e
      | Inr (bytesRead, buffer) \<Rightarrow>
          (case readInitialLines cfg fs hs of
             Inl e \<Rightarrow> Inl e
           | Inr lines \<Rightarrow> Inr (trim (toStringAscii buffer) # lines)))"

text \<open>The reducer of \<open>findMinLine\<close>:
  \<open>(min, current) => (current !== "" && current < min ? current : min)\<close>.\<close>

definition minReducer :: "string \<Rightarrow> string \<Rightarrow> string" where
  "minReducer minLine current = (if current \<noteq> [] \<and> current < minLine then current else minLine)"

definition findMinLine :: "string list \<Rightarrow> string \<times> int" where
  "findMinLine lines =
     (let minLine = foldl minReducer MAX_ASCII_CHAR lines;
          minIndex = indexOf lines minLine
      in (minLine, minIndex))"

definition writeLineToOutput :: "SortFile \<Rightarrow> fileId \<Rightarrow> string \<Rightarrow> filesystem \<Rightarrow> unit result \<times> filesystem" where
  "writeLineToOutput cfg outFile line fs =
     fh_write outFile (bufferFromAscii (padEnd line (lineSizeBytes cfg - length EOL) @ EOL)) fs"

text \<open>\<open>readNextLine\<close> updates the arrays \<open>lines\<close> and \<open>positions\<close> in place; here the
  updated arrays are returned.\<close>

definition readNextLine ::
  "SortFile \<Rightarrow> filesystem \<Rightarrow> fileId \<Rightarrow> nat \<Rightarrow> string list \<Rightarrow> nat list \<Rightarrow> (string list \<times> nat list) result" where
  "readNextLine cfg fs fileHandle index lines positions =
     (case fh_read fs fileHandle (Buffer_alloc (lineSizeBytes cfg)) (lineSizeBytes cfg) (positions ! index) of
        Inl e \<Rightarrow> Inl e
      | Inr (bytesRead, buffer) \<Rightarrow>
          Inr (lines[index := (if bytesRead = 0 then [] else trim (toStringAscii buffer))],
               positions[index := positions ! index + lineSizeBytes cfg]))"

text \<open>
  The loop of \<open>performMerge\<close>. It need not end (when the output file is the file of a
  run, the loop reads what it writes), so it takes fuel: one unit per iteration,
  \<open>None\<close> when the fuel is used up before the loop ends.
  \<open>fileHandles[minIndex]\<close> is \<open>undefined\<close> for an index outside the array, and the
  call of \<open>read\<close> on it throws a \<open>TypeError\<close>.
\<close>

fun performMergeLoop ::
  "nat \<Rightarrow> SortFile \<Rightarrow> fileId list \<Rightarrow> fileId \<Rightarrow> string list \<Rightarrow> nat list \<Rightarrow> filesystem
     \<Rightarrow> (unit result \<times> filesystem) option" where
  "performMergeLoop fuel cfg fileHandles outFile lines positions fs =
     (if \<not> list_ex (\<lambda>line. line \<noteq> []) lines then Some (Inr (), fs)
      else case fuel of
        0 \<Rightarrow> None
      | Suc fuel' \<Rightarrow>
         (case findMinLine lines of
            (minLine, minIndex) \<Rightarrow>
             (case writeLineToOutput cfg outFile minLine fs of
                (Inl e, fs1) \<Rightarrow> Some (Inl e, fs1)
              | (Inr u, fs1) \<Rightarrow>
                  if minIndex < 0 \<or> int (length fileHandles) \<le> minIndex then Some (Inl TypeError, fs1)
                  else (case readNextLine cfg fs1 (fileHandles ! nat minIndex) (nat minIndex) lines positions of
                          Inl e \<Rightarrow> Some (Inl e, fs1)
                        | Inr (lines', positions') \<Rightarrow>
                            performMergeLoop fuel' cfg fileHandles outFile lines' positions' fs1))))"

declare performMergeLoop.simps [simp del]

definition performMerge ::
  "nat \<Rightarrow> SortFile \<Rightarrow> fileId list \<Rightarrow> fileId \<Rightarrow> filesystem \<Rightarrow> (unit result \<times> filesystem) option" where
  "performMerge fuel cfg fileHandles outFile fs =
     (case readInitialLines cfg fs fileHandles of
        Inl e \<Rightarrow> Some (Inl e, fs)
      | Inr lines \<Rightarrow>
          performMergeLoop fuel cfg fileHandles outFile lines
            (replicate (length fileHandles) (lineSizeBytes cfg)) fs)"

text \<open>\<open>Promise.all(segments.map((segment) => fsp.unlink(segment)))\<close>: every unlink is
  started; the result is the first failure, if any.\<close>

fun unlinkSegments :: "path list \<Rightarrow> filesystem \<Rightarrow> unit result \<times> filesystem" where
  "unlinkSegments [] fs = (Inr (), fs)"
| "unlinkSegments (segment # rest) fs =
     (case fsp_unlink segment fs of
        (Inl e, fs1) \<Rightarrow> (case unlinkSegments rest fs1 of (r, fs2) \<Rightarrow> (Inl e, fs2))
      | (Inr u, fs1) \<Rightarrow> unlinkSegments rest fs1)"

definition cleanupFiles :: "fileId list \<Rightarrow> fileId \<Rightarrow> path list \<Rightarrow> filesystem \<Rightarrow> unit result \<times> filesystem" where
  "cleanupFiles fileHandles outFile segments fs =
     unlinkSegments segments (fh_close outFile (fold fh_close fileHandles fs))"

text \<open>
  \<open>mergeSegments\<close>: the handles are opened before the \<open>try\<close>; the \<open>finally\<close> block
  runs \<open>cleanupFiles\<close> after \<open>performMerge\<close>, whatever its outcome, and a failure of
  the cleanup replaces that outcome.
\<close>

definition mergeSegments ::
  "nat \<Rightarrow> SortFile \<Rightarrow> path list \<Rightarrow> path \<Rightarrow> filesystem \<Rightarrow> (unit result \<times> filesystem) option" where
  "mergeSegments fuel cfg segments outFilename fs =
     (case openSegments segments fs of
        (Inl e, fs1) \<Rightarrow> Some (Inl e, fs1)
      | (Inr fileHandles, fs1) \<Rightarrow>
         (case fsp_open_write outFilename fs1 of
            (Inl e, fs2) \<Rightarrow> Some (Inl e, fs2)
          | (Inr outFile, fs2) \<Rightarrow>
             (case performMerge fuel cfg fileHandles outFile fs2 of
                None \<Rightarrow> None
              | Some (r, fs3) \<Rightarrow>
                 (case cleanupFiles fileHandles outFile segments fs3 of
                    (Inl e, fs4) \<Rightarrow> Some (Inl e, fs4)
                  | (Inr u, fs4) \<Rightarrow> Some (r, fs4)))))"

subsection \<open>The entry point\<close>

definition Sort ::
  "nat \<Rightarrow> SortFile \<Rightarrow> path \<Rightarrow> path \<Rightarrow> filesystem \<Rightarrow> (unit result \<times> filesystem) option" where
  "Sort fuel cfg inFilename outFilename fs =
     (case validateInput cfg inFilename outFilename fs of
        (Inl e, fs1) \<Rightarrow> Some (Inl e, fs1)
      | (Inr u, fs1) \<Rightarrow>
         (case sortSegments cfg inFilename fs1 of
            (Inl e, fs2) \<Rightarrow> Some (Inl e, fs2)
          | (Inr sortedSegments, fs2) \<Rightarrow> mergeSegments fuel cfg sortedSegments outFilename fs2))"

subsection \<open>A bound on the iterations of the merge loop\<close>

text \<open>
  For the buffer of index \<open>i\<close>: nothing when it is exhausted, otherwise one more than
  the number of bytes of its run file from its cursor on. The bound is the sum over the
  buffers.
\<close>

definition remaining :: "filesystem \<Rightarrow> fileId list \<Rightarrow> string list \<Rightarrow> nat list \<Rightarrow> nat \<Rightarrow> nat" where
  "remaining fs fileHandles lines positions i =
     (if lines ! i = [] then 0
      else Suc (case files fs (fileHandles ! i) of
                  None \<Rightarrow> 0
                | Some content \<Rightarrow> length content - positions ! i))"

definition mergeBound :: "filesystem \<Rightarrow> fileId list \<Rightarrow> string list \<Rightarrow> nat list \<Rightarrow> nat" where
  "mergeBound fs fileHandles lines positions =
     (\<Sum>i<length fileHandles. remaining fs fileHandles lines positions i)"

text \<open>What no operation of the program changes: the file that a path denotes, the
  directories and the permissions.\<close>

definition unchangedNames :: "filesystem \<Rightarrow> filesystem \<Rightarrow> bool" where
  "unchangedNames fs fs' =
     (resolve fs' = resolve fs \<and> dirs fs' = dirs fs \<and> readDenied fs' = readDenied fs
      \<and> writeDenied fs' = writeDenied fs \<and> unlinkDenied fs' = unlinkDenied fs)"

subsection \<open>Notions of the specification\<close>

text \<open>
  The definitions of this subsection do not come from the source. They follow the words of
  the specification, and serve to state its claims about the source.
\<close>

text \<open>The parent directory of a path: what precedes its last \<open>/\<close>; empty (the current
  directory) when the path has none.\<close>

definition parentDirectory :: "path \<Rightarrow> path" where
  "parentDirectory p = rev (drop 1 (dropWhile (\<lambda>c. c \<noteq> CHR ''/'') (rev p)))"

definition baseName :: "path \<Rightarrow> string" where
  "baseName p = rev (takeWhile (\<lambda>c. c \<noteq> CHR ''/'') (rev p))"

text \<open>The extension of a path: from the last \<open>.\<close> of its base name, when that is not
  the first character of the base name; empty otherwise.\<close>

definition extensionOf :: "path \<Rightarrow> string" where
  "extensionOf p =
     (let e = rev (takeWhile (\<lambda>c. c \<noteq> CHR ''.'') (rev (baseName p)))
      in if length e + 1 < length (baseName p) then CHR ''.'' # e else [])"

definition pathWithoutExtension :: "path \<Rightarrow> string" where
  "pathWithoutExtension p = take (length p - length (extensionOf p)) p"

text \<open>The name the specification gives to the run with index \<open>i\<close>:
  \<open><inputPathWithoutExtension>-temp-<segmentIndex><originalExtension-or-".txt">\<close>.\<close>

definition specRunName :: "path \<Rightarrow> nat \<Rightarrow> path" where
  "specRunName p i =
     pathWithoutExtension p @ ''-temp-'' @ decimal i
       @ (if extensionOf p = [] then ''.txt'' else extensionOf p)"

text \<open>The records of a file: the payloads that precede each two-byte terminator, and what
  follows the last terminator when the file does not end with one.\<close>

fun recordsFrom :: "bytes \<Rightarrow> string \<Rightarrow> string list" where
  "recordsFrom [] acc = (if acc = [] then [] else [rev acc])"
| "recordsFrom [c] acc = [rev (c # acc)]"
| "recordsFrom (c # d # cs) acc =
     (if [c, d] = EOL then rev acc # recordsFrom cs [] else recordsFrom (d # cs) (c # acc))"

definition recordsOfFile :: "bytes \<Rightarrow> string list" where
  "recordsOfFile content = recordsFrom content []"

text \<open>
  The format of a record on storage: the payload followed by the two-byte terminator. A
  file of records is their concatenation. A payload is clean for a configuration when it
  is not empty, its record has the configured width, and decoding and trimming its
  record gives the payload back (its characters are 7-bit and it neither starts nor ends
  with white space).
\<close>

definition recordBytes :: "string \<Rightarrow> bytes" where
  "recordBytes payload = payload @ EOL"

definition runFile :: "string list \<Rightarrow> bytes" where
  "runFile payloads = concat (map recordBytes payloads)"

definition cleanPayload :: "SortFile \<Rightarrow> string \<Rightarrow> bool" where
  "cleanPayload cfg payload =
     (payload \<noteq> [] \<and> length (recordBytes payload) = lineSizeBytes cfg
      \<and> trim (toStringAscii (recordBytes payload)) = payload
      \<and> trim (toStringUtf8 (recordBytes payload)) = payload)"

text \<open>The windows of \<open>n\<close> records of a file, in the order of the file; the last one
  is shorter when the number of records is not a multiple of \<open>n\<close>.\<close>

function chunksOf :: "nat \<Rightarrow> 'a list \<Rightarrow> 'a list list" where
  "chunksOf n xs = (if n = 0 \<or> xs = [] then [] else take n xs # chunksOf n (drop n xs))"
  by pat_completeness auto
termination
  by (relation "measure (\<lambda>(n, xs). length xs)") auto

declare chunksOf.simps [simp del]

text \<open>What a call leaves behind: its outcome, the content of the file at a path and the
  open handles.\<close>

definition outcomeOf :: "(unit result \<times> filesystem) option \<Rightarrow> unit result option" where
  "outcomeOf r = map_option fst r"

definition fileAfter :: "(unit result \<times> filesystem) option \<Rightarrow> path \<Rightarrow> bytes option" where
  "fileAfter r p = (case r of None \<Rightarrow> None | Some (x, fs) \<Rightarrow> files fs (resolve fs p))"

definition handlesAfter :: "(unit result \<times> filesystem) option \<Rightarrow> fileId multiset" where
  "handlesAfter r = (case r of None \<Rightarrow> {#} | Some (x, fs) \<Rightarrow> handles fs)"

subsection \<open>The state of the merge loop over well-formed runs\<close>

text \<open>
  The buffer of a run holds the first payload of what remains of it, or the empty string.
  With \<open>consumed ! i\<close> payloads of run \<open>i\<close> written to the output, the buffers and
  the cursors of the merge loop are the following.
\<close>

definition bufferHead :: "string list \<Rightarrow> string" where
  "bufferHead remainder = (case remainder of [] \<Rightarrow> [] | payload # rest \<Rightarrow> payload)"

definition remainders :: "string list list \<Rightarrow> nat list \<Rightarrow> string list list" where
  "remainders runs consumed = map (\<lambda>i. drop (consumed ! i) (runs ! i)) [0..<length runs]"

definition buffersOf :: "string list list \<Rightarrow> nat list \<Rightarrow> string list" where
  "buffersOf runs consumed = map bufferHead (remainders runs consumed)"

definition cursorsOf :: "SortFile \<Rightarrow> nat list \<Rightarrow> nat list" where
  "cursorsOf cfg consumed = map (\<lambda>c. (c + 1) * lineSizeBytes cfg) consumed"

text \<open>Well-formed runs, each in its file: the run files of a merge.\<close>

definition runsInFiles :: "SortFile \<Rightarrow> filesystem \<Rightarrow> fileId list \<Rightarrow> string list list \<Rightarrow> bool" where
  "runsInFiles cfg fs fileHandles runs =
     (length runs = length fileHandles
      \<and> list_all (\<lambda>i. files fs (fileHandles ! i) = Some (runFile (runs ! i))) [0..<length runs]
      \<and> list_all (\<lambda>run. run \<noteq> [] \<and> sorted run
            \<and> list_all (\<lambda>p. cleanPayload cfg p \<and> p < MAX_ASCII_CHAR) run) runs)"

subsection \<open>Example inputs\<close>

text \<open>A file system in which every path string is the name of its own file and nothing is
  denied, with the given files and directories.\<close>

definition plainFiles :: "(fileId \<rightharpoonup> bytes) \<Rightarrow> (fileId \<rightharpoonup> nat) \<Rightarrow> filesystem" where
  "plainFiles fileContents directories =
     \<lparr>resolve = (\<lambda>p. p), files = fileContents, dirs = directories,
      readDenied = {}, writeDenied = {}, unlinkDenied = {}, handles = {#}\<rparr>"

text \<open>A file system holding an input file \<open>in.txt\<close> and an existing output file
  \<open>out.txt\<close>.\<close>

definition inputAndOutput :: "bytes \<Rightarrow> filesystem" where
  "inputAndOutput content = plainFiles [''in.txt'' \<mapsto> content, ''out.txt'' \<mapsto> []] Map.empty"

definition sorter :: "nat \<Rightarrow> nat \<Rightarrow> SortFile" where
  "sorter perSegment width =
     \<lparr>maxFileSizeBytes = 800000, numberOfLinesPerSegment = perSegment, lineSizeBytes = width\<rparr>"

text \<open>One full record of width 7 followed by two bytes: a file cut short.\<close>

definition truncatedFile :: bytes where
  "truncatedFile = ''abcde'' @ EOL @ ''xy''"

text \<open>One record of width 4 whose payload starts with the character of code 127.\<close>

definition delFile :: bytes where
  "delFile = [CHR 0x7F, CHR ''a''] @ EOL"

text \<open>An input file and an existing directory \<open>out\<close>; no file \<open>out/result.txt\<close>.\<close>

definition inputAndDirectory :: filesystem where
  "inputAndDirectory = plainFiles [''in.txt'' \<mapsto> ''abcde'' @ EOL] [''out'' \<mapsto> 4096]"

text \<open>An empty input file and an existing directory \<open>out\<close>; no file
  \<open>out/result.txt\<close>.\<close>

definition emptyInputAndDirectory :: filesystem where
  "emptyInputAndDirectory = plainFiles [''in.txt'' \<mapsto> []] [''out'' \<mapsto> 4096]"

text \<open>An input file whose name does not end in \<open>.txt\<close>.\<close>

definition jsonInput :: filesystem where
  "jsonInput = plainFiles [''data.json'' \<mapsto> ''abcde'' @ EOL, ''out.txt'' \<mapsto> []] Map.empty"

text \<open>An input file, and an output path that is the name of the first run of that
  input.\<close>

definition outputIsRun :: filesystem where
  "outputIsRun = plainFiles [''in.txt'' \<mapsto> ''abcde'' @ EOL, ''in-temp-0.txt'' \<mapsto> []] Map.empty"

text \<open>The same files, where the path \<open>./in-temp-0.txt\<close> is another spelling of the name
  of the first run.\<close>

definition outputAliasesRun :: filesystem where
  "outputAliasesRun =
     outputIsRun\<lparr>resolve := (\<lambda>p. if p = ''./in-temp-0.txt'' then ''in-temp-0.txt'' else p)\<rparr>"

text \<open>An input file and an output file that may not be opened for writing.\<close>

definition readOnlyOutput :: filesystem where
  "readOnlyOutput = (inputAndOutput (''abcde'' @ EOL))\<lparr>writeDenied := {''out.txt''}\<rparr>"

section \<open>Auxiliary facts\<close>

subsection \<open>The selection of the smallest line\<close>

lemma foldl_minReducer_le: "foldl minReducer m lines \<le> m"
proof (induction lines arbitrary: m)
  case Nil
  show ?case by simp
next
  case (Cons l lines)
  have "foldl minReducer (minReducer m l) lines \<le> minReducer m l" by (rule Cons.IH)
  also have "minReducer m l \<le> m" by (auto simp: minReducer_def)
  finally show ?case by simp
qed

lemma foldl_minReducer_lower: "l \<in> set lines \<Longrightarrow> l \<noteq> [] \<Longrightarrow> foldl minReducer m lines \<le> l"
proof (induction lines arbitrary: m)
  case Nil
  then show ?case by simp
next
  case (Cons a lines)
  show ?case
  proof (cases "l = a")
    case True
    have "foldl minReducer (minReducer m a) lines \<le> minReducer m a" by (rule foldl_minReducer_le)
    also have "minReducer m a \<le> a" using Cons.prems True by (auto simp: minReducer_def)
    finally show ?thesis using True by simp
  next
    case False
    with Cons.prems have "l \<in> set lines" by simp
    from Cons.IH [OF this Cons.prems(2)] show ?thesis by simp
  qed
qed

lemma foldl_minReducer_cases:
  "foldl minReducer m lines = m
   \<or> (foldl minReducer m lines \<in> set lines \<and> foldl minReducer m lines \<noteq> [] \<and> foldl minReducer m lines < m)"
proof (induction lines arbitrary: m)
  case Nil
  show ?case by simp
next
  case (Cons a lines)
  from Cons.IH [of "minReducer m a"] show ?case
    by (auto simp: minReducer_def split: if_splits)
qed

lemma indexOfFrom_notin: "x \<notin> set xs \<Longrightarrow> indexOfFrom xs x i = - 1"
  by (induction xs arbitrary: i) auto

lemma indexOfFrom_in:
  "x \<in> set xs \<Longrightarrow> \<exists>j<length xs. indexOfFrom xs x i = i + int j \<and> xs ! j = x \<and> (\<forall>k<j. xs ! k \<noteq> x)"
proof (induction xs arbitrary: i)
  case Nil
  then show ?case by simp
next
  case (Cons a xs)
  show ?case
  proof (cases "a = x")
    case True
    then show ?thesis by (intro exI [of _ 0]) simp
  next
    case False
    with Cons.prems have "x \<in> set xs" by simp
    from Cons.IH [OF this, of "i + 1"] obtain j where j: "j < length xs"
      "indexOfFrom xs x (i + 1) = i + 1 + int j" "xs ! j = x" "\<forall>k<j. xs ! k \<noteq> x"
      by blast
    have "\<forall>k<Suc j. (a # xs) ! k \<noteq> x"
      using j(4) False by (auto simp: less_Suc_eq_0_disj)
    with j False show ?thesis by (intro exI [of _ "Suc j"]) simp
  qed
qed

lemma indexOf_nonneg_iff: "0 \<le> indexOf xs x \<longleftrightarrow> x \<in> set xs"
proof
  assume "0 \<le> indexOf xs x"
  then show "x \<in> set xs"
    using indexOfFrom_notin [of x xs 0] by (auto simp: indexOf_def)
next
  assume "x \<in> set xs"
  from indexOfFrom_in [OF this, of 0] show "0 \<le> indexOf xs x"
    by (auto simp: indexOf_def)
qed

lemma findMinLine_min_in:
  assumes "l \<in> set lines" and "l \<noteq> []" and "l \<le> MAX_ASCII_CHAR"
  shows "fst (findMinLine lines) \<in> set lines"
proof -
  let ?m = "foldl minReducer MAX_ASCII_CHAR lines"
  from foldl_minReducer_cases [of MAX_ASCII_CHAR lines]
  show ?thesis
  proof
    assume eq: "?m = MAX_ASCII_CHAR"
    from foldl_minReducer_lower [OF assms(1,2), of MAX_ASCII_CHAR] eq assms(3)
    have "l = MAX_ASCII_CHAR" by simp
    with assms(1) eq show ?thesis by (simp add: findMinLine_def Let_def)
  next
    assume "?m \<in> set lines \<and> ?m \<noteq> [] \<and> ?m < MAX_ASCII_CHAR"
    then show ?thesis by (simp add: findMinLine_def Let_def)
  qed
qed

text \<open>The tie-break of \<open>findMinLine\<close>, when some buffered value does not exceed the
  sentinel: the line selected is the smallest buffered value, and the index is the first
  one that holds it.\<close>

lemma findMinLine_first_index:
  assumes "l \<in> set lines" and "l \<noteq> []" and "l \<le> MAX_ASCII_CHAR"
  shows "\<exists>j<length lines. findMinLine lines = (lines ! j, int j)
           \<and> (\<forall>k\<in>set lines. k \<noteq> [] \<longrightarrow> lines ! j \<le> k)
           \<and> (\<forall>i<j. lines ! i \<noteq> lines ! j)"
proof -
  let ?m = "foldl minReducer MAX_ASCII_CHAR lines"
  have "?m \<in> set lines"
    using findMinLine_min_in [OF assms] by (simp add: findMinLine_def Let_def)
  from indexOfFrom_in [OF this, of 0] obtain j where j: "j < length lines"
    "indexOf lines ?m = int j" "lines ! j = ?m" "\<forall>i<j. lines ! i \<noteq> ?m"
    by (auto simp: indexOf_def)
  have "\<forall>k\<in>set lines. k \<noteq> [] \<longrightarrow> ?m \<le> k"
    using foldl_minReducer_lower by blast
  with j show ?thesis
    by (intro exI [of _ j]) (simp add: findMinLine_def Let_def)
qed

lemma replicate_numeral: "replicate (numeral k) x = x # replicate (pred_numeral k) x"
  by (simp add: numeral_eq_Suc)

lemma list_update_numeral: "(x # xs)[numeral k := y] = x # xs[pred_numeral k := y]"
  by (simp add: numeral_eq_Suc)

lemmas fs_defs = fsp_access_def fsp_stat_size_def fsp_open_read_def fsp_open_write_def fh_close_def
  fh_read_def fh_write_def fsp_writeFile_def fsp_unlink_def
lemmas str_defs = EOL_def TEMP_FILE_PREFIX_def TEMP_FILE_EXTENSION_def MAX_ASCII_CHAR_def
  isWhitespace_def trim_def toStringAscii_def toStringUtf8_def bufferFromAscii_def Buffer_alloc_def
  padEnd_def fileNameNoEnd_def digitChar_def indexOf_def decimal.simps replicate_numeral list_update_numeral
lemmas val_defs = checkFileExists_def checkFileSizeLimit_def checkLineLoop.simps checkLineLengthAndCount_def
  validateFileContents_def checkOutputDirectory_def validateInput_def
lemmas seg_defs = readSegmentLoop.simps readSegment_def tempFilePath_def writeSortedSegment_def
  sortSegmentsLoop.simps sortSegments_def
lemmas merge_defs = minReducer_def findMinLine_def writeLineToOutput_def readNextLine_def performMergeLoop.simps
  performMerge_def cleanupFiles_def mergeSegments_def
lemmas ex_defs = plainFiles_def inputAndOutput_def sorter_def truncatedFile_def delFile_def inputAndDirectory_def
  emptyInputAndDirectory_def readOnlyOutput_def
lemmas obs_defs = outcomeOf_def fileAfter_def handlesAfter_def

lemma findMinLine_selected:
  assumes "findMinLine lines = (m, idx)" and "0 \<le> idx"
  shows "nat idx < length lines \<and> lines ! nat idx = m \<and> m \<noteq> []"
proof -
  from assms have m: "m = foldl minReducer MAX_ASCII_CHAR lines" and idx: "idx = indexOf lines m"
    by (auto simp: findMinLine_def Let_def)
  from assms(2) idx have "m \<in> set lines" by (simp add: indexOf_nonneg_iff)
  from indexOfFrom_in [OF this, of 0] idx obtain j where "j < length lines" "idx = int j" "lines ! j = m"
    by (auto simp: indexOf_def)
  moreover from foldl_minReducer_cases [of MAX_ASCII_CHAR lines] m have "m \<noteq> []"
    by (auto simp: MAX_ASCII_CHAR_def)
  ultimately show ?thesis by simp
qed

subsection \<open>Validation leaves the file system as it was\<close>

lemma validateFileContents_state: "snd (validateFileContents cfg filename fs) = fs"
  by (simp add: validateFileContents_def fsp_open_read_def fh_close_def)

lemma validateInput_state: "snd (validateInput cfg inFilename outFilename fs) = fs"
  using validateFileContents_state [of cfg inFilename fs]
  by (auto simp: validateInput_def split: sum.splits prod.splits)

lemma checkLineLoop_files:
  "files fs' = files fs \<Longrightarrow>
   checkLineLoop cfg fs' h pos buffer n = checkLineLoop cfg fs h pos buffer n"
proof (induction cfg fs h pos buffer n rule: checkLineLoop.induct)
  case (1 cfg fs fileHandle bytesRead buffer lineCount)
  have rd: "fh_read fs' fileHandle buffer (lineSizeBytes cfg) bytesRead
      = fh_read fs fileHandle buffer (lineSizeBytes cfg) bytesRead"
    using "1.prems" by (simp add: fh_read_def)
  show ?case
  proof (cases "fh_read fs fileHandle buffer (lineSizeBytes cfg) bytesRead")
    case (Inl e)
    then show ?thesis
      by (subst checkLineLoop.simps, subst (2) checkLineLoop.simps) (simp add: rd)
  next
    case (Inr x)
    obtain a b where x: "x = (a, b)" by (cases x)
    show ?thesis
    proof (cases "a = 0 \<or> length (trim (toStringAscii b)) + length EOL \<noteq> lineSizeBytes cfg")
      case True
      then show ?thesis
        using Inr x
        by (subst checkLineLoop.simps, subst (2) checkLineLoop.simps) (auto simp: rd)
    next
      case False
      then have "checkLineLoop cfg fs' fileHandle (bytesRead + a) b (lineCount + 1)
          = checkLineLoop cfg fs fileHandle (bytesRead + a) b (lineCount + 1)"
        using "1.IH" [OF Inr x [symmetric]] "1.prems" by simp
      then show ?thesis
        using Inr x False
        by (subst checkLineLoop.simps, subst (2) checkLineLoop.simps) (simp add: rd)
    qed
  qed
qed

subsection \<open>Run generation: names and files of the runs\<close>

lemma unchangedNames_refl: "unchangedNames fs fs"
  by (simp add: unchangedNames_def)

lemma unchangedNames_trans: "unchangedNames fs fs1 \<Longrightarrow> unchangedNames fs1 fs2 \<Longrightarrow> unchangedNames fs fs2"
  by (simp add: unchangedNames_def)

lemma writeSortedSegment_result:
  assumes "writeSortedSegment lines counter nameNoEnd fs = (r, fs')"
  shows "handles fs' = handles fs \<and> unchangedNames fs fs'
         \<and> (\<forall>p. files fs p \<noteq> None \<longrightarrow> files fs' p \<noteq> None)
         \<and> (\<forall>path. r = Inr path \<longrightarrow> path = tempFilePath nameNoEnd counter
               \<and> files fs' (resolve fs path) \<noteq> None \<and> dirs fs (resolve fs path) = None)"
  using assms
  by (auto simp: writeSortedSegment_def fsp_writeFile_def unchangedNames_def split: if_splits)

lemma sortSegmentsLoop_result:
  "sortSegmentsLoop cfg h nameNoEnd segments counter pos fs = (r, fs') \<Longrightarrow>
   handles fs' = handles fs \<and> unchangedNames fs fs'
   \<and> (\<forall>p. files fs p \<noteq> None \<longrightarrow> files fs' p \<noteq> None)
   \<and> (\<forall>segs. r = Inr segs \<longrightarrow>
        (\<exists>n. segs = segments @ map (tempFilePath nameNoEnd) [counter..<counter + n]
           \<and> (\<forall>k<n. files fs' (resolve fs (tempFilePath nameNoEnd (counter + k))) \<noteq> None
                  \<and> dirs fs (resolve fs (tempFilePath nameNoEnd (counter + k))) = None)))"
proof (induction cfg h nameNoEnd segments counter pos fs rule: sortSegmentsLoop.induct)
  case (1 cfg fileHandle nameNoEnd segments segmentCounter bytesRead fs)
  let ?f = "tempFilePath nameNoEnd"
  show ?case
  proof (cases "readSegment cfg fs fileHandle bytesRead")
    case (Inl e)
    with "1.prems" have "r = Inl e \<and> fs' = fs"
      by (subst (asm) sortSegmentsLoop.simps) auto
    then show ?thesis by (simp add: unchangedNames_refl)
  next
    case (Inr lines)
    show ?thesis
    proof (cases "length lines = 0")
      case True
      with "1.prems" Inr have "r = Inr segments \<and> fs' = fs"
        by (subst (asm) sortSegmentsLoop.simps) auto
      then show ?thesis by (auto simp: unchangedNames_refl intro: exI [of _ 0])
    next
      case False
      obtain x1 fs1 where w: "writeSortedSegment lines segmentCounter nameNoEnd fs = (x1, fs1)"
        by force
      note w1 = writeSortedSegment_result [OF w]
      show ?thesis
      proof (cases x1)
        case (Inl e)
        with "1.prems" Inr False w have "r = Inl e \<and> fs' = fs1"
          by (subst (asm) sortSegmentsLoop.simps) auto
        with w1 show ?thesis by simp
      next
        case (Inr path)
        with w1 have path: "path = ?f segmentCounter"
          and ex: "files fs1 (resolve fs (?f segmentCounter)) \<noteq> None"
          and nd: "dirs fs (resolve fs (?f segmentCounter)) = None"
          by auto
        from w1 have un1: "unchangedNames fs fs1" by simp
        then have res1: "resolve fs1 = resolve fs" and dirs1: "dirs fs1 = dirs fs"
          by (simp_all add: unchangedNames_def)
        from "1.prems" \<open>readSegment cfg fs fileHandle bytesRead = Inr lines\<close> False w Inr
        have rec: "sortSegmentsLoop cfg fileHandle nameNoEnd (segments @ [path]) (segmentCounter + 1)
            (bytesRead + length lines * lineSizeBytes cfg) fs1 = (r, fs')"
          by (subst (asm) sortSegmentsLoop.simps) auto
        note ih = "1.IH" [OF \<open>readSegment cfg fs fileHandle bytesRead = Inr lines\<close> False w [symmetric] Inr rec]
        have mono: "\<forall>p. files fs p \<noteq> None \<longrightarrow> files fs' p \<noteq> None"
          using ih w1 by blast
        have un: "unchangedNames fs fs'"
          using un1 ih by (blast intro: unchangedNames_trans)
        have "\<exists>n. segs = segments @ map ?f [segmentCounter..<segmentCounter + n]
           \<and> (\<forall>k<n. files fs' (resolve fs (?f (segmentCounter + k))) \<noteq> None
                  \<and> dirs fs (resolve fs (?f (segmentCounter + k))) = None)" if r: "r = Inr segs" for segs
        proof -
          from ih r obtain n where n: "segs = (segments @ [path]) @ map ?f [segmentCounter + 1..<segmentCounter + 1 + n]"
            and k: "\<forall>k<n. files fs' (resolve fs (?f (segmentCounter + 1 + k))) \<noteq> None
                  \<and> dirs fs (resolve fs (?f (segmentCounter + 1 + k))) = None"
            unfolding res1 dirs1 by blast
          have "[segmentCounter..<segmentCounter + Suc n] = segmentCounter # [segmentCounter + 1..<segmentCounter + 1 + n]"
            by (simp add: upt_conv_Cons)
          with n path have eq: "segs = segments @ map ?f [segmentCounter..<segmentCounter + Suc n]"
            by simp
          have "files fs' (resolve fs (?f (segmentCounter + j))) \<noteq> None
              \<and> dirs fs (resolve fs (?f (segmentCounter + j))) = None" if "j < Suc n" for j
          proof (cases j)
            case 0
            with ex nd ih show ?thesis by simp
          next
            case (Suc j')
            with that k show ?thesis by simp
          qed
          with eq show ?thesis by blast
        qed
        with ih w1 mono un show ?thesis by simp
      qed
    qed
  qed
qed

lemma sortSegments_result:
  assumes "sortSegments cfg inFilename fs = (r, fs')"
  shows "handles fs' = handles fs \<and> unchangedNames fs fs'
         \<and> (\<forall>segs. r = Inr segs \<longrightarrow>
               segs = map (tempFilePath (fileNameNoEnd inFilename)) [0..<length segs]
               \<and> (\<forall>s\<in>set segs. files fs' (resolve fs s) \<noteq> None \<and> dirs fs (resolve fs s) = None))"
proof (cases "fsp_access fs inFilename \<and> resolve fs inFilename \<notin> readDenied fs")
  case False
  with assms show ?thesis by (auto simp: sortSegments_def fsp_open_read_def unchangedNames_refl)
next
  case True
  let ?h = "resolve fs inFilename"
  let ?fs1 = "fs\<lparr>handles := add_mset ?h (handles fs)\<rparr>"
  let ?f = "tempFilePath (fileNameNoEnd inFilename)"
  obtain r2 fs2 where l: "sortSegmentsLoop cfg ?h (fileNameNoEnd inFilename) [] 0 0 ?fs1 = (r2, fs2)"
    by force
  with assms True have r: "r = r2" and fs': "fs' = fh_close ?h fs2"
    by (auto simp: sortSegments_def fsp_open_read_def)
  note res = sortSegmentsLoop_result [OF l]
  have "segs = map ?f [0..<length segs]
        \<and> (\<forall>s\<in>set segs. files fs' (resolve fs s) \<noteq> None \<and> dirs fs (resolve fs s) = None)"
    if "r = Inr segs" for segs
  proof -
    from res that r obtain n where n: "segs = map ?f [0..<n]"
      and k: "\<forall>k<n. files fs2 (resolve fs (?f k)) \<noteq> None \<and> dirs fs (resolve fs (?f k)) = None"
      by auto
    from n have "length segs = n" by simp
    with n k show ?thesis by (auto simp: fs' fh_close_def)
  qed
  moreover from res have "handles fs' = handles fs \<and> unchangedNames fs fs'"
    by (simp add: fs' fh_close_def unchangedNames_def)
  ultimately show ?thesis by blast
qed

lemma decimal_digits: "set (decimal n) \<subseteq> set ''0123456789''"
proof (induction n rule: decimal.induct)
  case (1 n)
  have d: "digitChar k \<in> set ''0123456789''" if "k < 10" for k
    unfolding digitChar_def using that by (intro nth_mem) simp
  show ?case
  proof (cases "n < 10")
    case True
    with d [of n] show ?thesis by (subst decimal.simps) simp
  next
    case False
    have "n mod 10 < 10" by simp
    from d [OF this] "1.IH" [OF False] False show ?thesis
      by (subst decimal.simps) simp
  qed
qed

lemma parentDirectory_suffix:
  assumes "CHR ''/'' \<notin> set a" and "CHR ''/'' \<notin> set b"
  shows "parentDirectory (base @ a) = parentDirectory (base @ b)"
proof -
  have "dropWhile (\<lambda>c. c \<noteq> CHR ''/'') (rev x @ rev base) = dropWhile (\<lambda>c. c \<noteq> CHR ''/'') (rev base)"
    if "CHR ''/'' \<notin> set x" for x
    using that by (intro dropWhile_append2) auto
  with assms show ?thesis by (simp add: parentDirectory_def)
qed

subsection \<open>Merging: handles and run files\<close>

lemma openSegments_result:
  "openSegments segments fs = (r, fs') \<Longrightarrow>
   unchangedNames fs fs' \<and> files fs' = files fs
   \<and> (\<forall>hs. r = Inr hs \<longrightarrow> handles fs' = handles fs + mset hs)"
proof (induction segments arbitrary: fs r fs')
  case Nil
  then show ?case by (auto simp: unchangedNames_refl)
next
  case (Cons s rest)
  obtain r1 fs1 where o: "fsp_open_read s fs = (r1, fs1)" by force
  then have o1: "unchangedNames fs fs1 \<and> files fs1 = files fs
      \<and> (\<forall>h. r1 = Inr h \<longrightarrow> handles fs1 = add_mset h (handles fs))"
    by (auto simp: fsp_open_read_def unchangedNames_def split: if_splits)
  obtain r2 fs2 where rest: "openSegments rest fs1 = (r2, fs2)" by force
  note ih = Cons.IH [OF rest]
  from Cons.prems o rest have fs': "fs' = fs2"
    by (auto split: sum.splits)
  have "handles fs' = handles fs + mset hs" if "r = Inr hs" for hs
  proof -
    from Cons.prems o rest that obtain h hs' where "r1 = Inr h" "r2 = Inr hs'" "hs = h # hs'"
      by (auto split: sum.splits)
    with ih o1 fs' show ?thesis by simp
  qed
  with ih o1 fs' show ?case
    by (auto intro: unchangedNames_trans)
qed

lemma openSegments_accessible:
  "\<forall>s\<in>set segments. fsp_access fs s \<and> resolve fs s \<notin> readDenied fs \<Longrightarrow>
   openSegments segments fs
     = (Inr (map (resolve fs) segments), fs\<lparr>handles := handles fs + mset (map (resolve fs) segments)\<rparr>)"
proof (induction segments arbitrary: fs)
  case Nil
  show ?case by simp
next
  case (Cons s rest)
  let ?fs1 = "fs\<lparr>handles := add_mset (resolve fs s) (handles fs)\<rparr>"
  from Cons.prems have "\<forall>s\<in>set rest. fsp_access ?fs1 s \<and> resolve ?fs1 s \<notin> readDenied ?fs1"
    by (simp add: fsp_access_def)
  from Cons.IH [OF this] Cons.prems show ?case
    by (simp add: fsp_open_read_def)
qed

lemma performMergeLoop_handles:
  "performMergeLoop fuel cfg fileHandles outFile lines positions fs = Some (r, fs') \<Longrightarrow>
   handles fs' = handles fs \<and> unchangedNames fs fs'"
proof (induction fuel arbitrary: lines positions fs)
  case 0
  then show ?case
    by (subst (asm) performMergeLoop.simps) (auto simp: unchangedNames_refl split: if_splits)
next
  case (Suc fuel)
  from Suc.prems show ?case
    by (subst (asm) performMergeLoop.simps)
       (auto simp: writeLineToOutput_def fh_write_def unchangedNames_def dest!: Suc.IH
             split: if_splits prod.splits sum.splits option.splits)
qed

lemma performMerge_handles:
  "performMerge fuel cfg fileHandles outFile fs = Some (r, fs') \<Longrightarrow>
   handles fs' = handles fs \<and> unchangedNames fs fs'"
  by (auto simp: performMerge_def unchangedNames_refl dest: performMergeLoop_handles split: sum.splits)

lemma fold_fh_close:
  "handles (fold fh_close hs fs) = handles fs - mset hs
   \<and> files (fold fh_close hs fs) = files fs \<and> unchangedNames fs (fold fh_close hs fs)"
  by (induction hs arbitrary: fs) (simp_all add: fh_close_def unchangedNames_def)

lemma unlinkSegments_result:
  "unlinkSegments segments fs = (r, fs') \<Longrightarrow>
   handles fs' = handles fs \<and> unchangedNames fs fs'
   \<and> (\<forall>p. files fs p = None \<longrightarrow> files fs' p = None)
   \<and> (\<forall>s\<in>set segments. resolve fs s \<notin> unlinkDenied fs \<longrightarrow> files fs' (resolve fs s) = None)"
proof (induction segments arbitrary: fs r fs')
  case Nil
  then show ?case by (simp add: unchangedNames_refl)
next
  case (Cons s rest)
  obtain r1 fs1 where u: "fsp_unlink s fs = (r1, fs1)" by force
  then have u1: "handles fs1 = handles fs \<and> unchangedNames fs fs1
      \<and> (\<forall>p. files fs p = None \<longrightarrow> files fs1 p = None)
      \<and> (resolve fs s \<notin> unlinkDenied fs \<longrightarrow> files fs1 (resolve fs s) = None)"
    by (auto simp: fsp_unlink_def unchangedNames_def split: if_splits)
  then have same: "resolve fs1 = resolve fs" "unlinkDenied fs1 = unlinkDenied fs"
    by (simp_all add: unchangedNames_def)
  obtain r2 fs2 where rest: "unlinkSegments rest fs1 = (r2, fs2)" by force
  from Cons.prems u rest have "fs' = fs2"
    by (auto split: sum.splits)
  with Cons.IH [OF rest] u1 show ?case
    unfolding same by (auto intro: unchangedNames_trans)
qed

lemma cleanupFiles_result:
  assumes "cleanupFiles fileHandles outFile segments fs = (r, fs')"
  shows "handles fs' = handles fs - mset fileHandles - {#outFile#} \<and> unchangedNames fs fs'
         \<and> (\<forall>p. files fs p = None \<longrightarrow> files fs' p = None)
         \<and> (\<forall>s\<in>set segments. resolve fs s \<notin> unlinkDenied fs \<longrightarrow> files fs' (resolve fs s) = None)"
  using unlinkSegments_result [OF assms [unfolded cleanupFiles_def]] fold_fh_close [of fileHandles fs]
  by (simp add: fh_close_def unchangedNames_def)

subsection \<open>Merging: the loop ends\<close>

lemma readNextLine_bound:
  assumes rd: "readNextLine cfg fs1 (fileHandles ! j) j lines positions = Inr (lines', positions')"
    and j: "j < length fileHandles" and ne: "lines ! j \<noteq> []"
    and len: "length lines = length fileHandles" "length positions = length fileHandles"
    and same: "\<forall>i<length fileHandles. files fs1 (fileHandles ! i) = files fs (fileHandles ! i)"
  shows "mergeBound fs1 fileHandles lines' positions' < mergeBound fs fileHandles lines positions
         \<and> length lines' = length fileHandles \<and> length positions' = length fileHandles"
proof -
  let ?w = "lineSizeBytes cfg"
  from rd obtain content where c: "files fs1 (fileHandles ! j) = Some content"
    by (auto simp: readNextLine_def fh_read_def split: option.splits)
  let ?data = "take ?w (drop (positions ! j) content)"
  from rd c have l': "lines' = lines[j := (if length ?data = 0 then []
        else trim (toStringAscii (?data @ drop (length ?data) (Buffer_alloc ?w))))]"
    and p': "positions' = positions[j := positions ! j + ?w]"
    by (auto simp: readNextLine_def fh_read_def Let_def)
  have other: "remaining fs1 fileHandles lines' positions' i = remaining fs fileHandles lines positions i"
    if "i < length fileHandles" "i \<noteq> j" for i
    using that same by (auto simp: remaining_def l' p' split: option.splits)
  have cj: "files fs (fileHandles ! j) = Some content"
    using same j c by auto
  have this_one: "remaining fs1 fileHandles lines' positions' j < remaining fs fileHandles lines positions j"
  proof (cases "lines' ! j = []")
    case True
    with ne show ?thesis by (simp add: remaining_def)
  next
    case False
    with l' j len have "length ?data \<noteq> 0" by (auto split: if_splits)
    then have "positions ! j < length content \<and> 0 < ?w" by auto
    then have "length content - (positions ! j + ?w) < length content - positions ! j"
      by arith
    with False ne c cj j len show ?thesis
      by (auto simp: remaining_def p' split: option.splits)
  qed
  have "(\<Sum>i<length fileHandles. remaining fs1 fileHandles lines' positions' i)
        < (\<Sum>i<length fileHandles. remaining fs fileHandles lines positions i)"
  proof (rule sum_strict_mono_ex1)
    show "finite {..<length fileHandles}" by simp
    show "\<forall>i\<in>{..<length fileHandles}. remaining fs1 fileHandles lines' positions' i
          \<le> remaining fs fileHandles lines positions i"
      using other this_one by (metis lessThan_iff less_imp_le order_refl)
    show "\<exists>i\<in>{..<length fileHandles}. remaining fs1 fileHandles lines' positions' i
          < remaining fs fileHandles lines positions i"
      using this_one j by auto
  qed
  with len show ?thesis by (simp add: mergeBound_def l' p')
qed

lemma performMergeLoop_returns:
  "mergeBound fs fileHandles lines positions \<le> fuel \<Longrightarrow> outFile \<notin> set fileHandles \<Longrightarrow>
   length lines = length fileHandles \<Longrightarrow> length positions = length fileHandles \<Longrightarrow>
   \<exists>res. performMergeLoop fuel cfg fileHandles outFile lines positions fs = Some res"
proof (induction fuel arbitrary: fs lines positions)
  case 0
  then have "\<forall>i<length fileHandles. lines ! i = []"
    by (auto simp: mergeBound_def remaining_def split: if_splits)
  with "0.prems"(3) have "\<not> list_ex (\<lambda>line. line \<noteq> []) lines"
    by (auto simp: list_ex_iff in_set_conv_nth)
  then show ?case by (subst performMergeLoop.simps) simp
next
  case (Suc fuel)
  show ?case
  proof (cases "list_ex (\<lambda>line. line \<noteq> []) lines")
    case False
    then show ?thesis by (subst performMergeLoop.simps) simp
  next
    case True
    obtain m idx where f: "findMinLine lines = (m, idx)" by force
    obtain rw fs1 where w: "writeLineToOutput cfg outFile m fs = (rw, fs1)" by force
    show ?thesis
    proof (cases rw)
      case (Inl e)
      with True f w show ?thesis by (subst performMergeLoop.simps) simp
    next
      case (Inr u)
      show ?thesis
      proof (cases "idx < 0 \<or> int (length fileHandles) \<le> idx")
        case True
        with \<open>list_ex (\<lambda>line. line \<noteq> []) lines\<close> f w Inr show ?thesis
          by (subst performMergeLoop.simps) simp
      next
        case False
        then have j: "nat idx < length fileHandles" by auto
        from False findMinLine_selected [OF f] have ne: "lines ! nat idx \<noteq> []" by auto
        have same: "\<forall>i<length fileHandles. files fs1 (fileHandles ! i) = files fs (fileHandles ! i)"
          using w Suc.prems(2)
          by (auto simp: writeLineToOutput_def fh_write_def split: option.splits)
        show ?thesis
        proof (cases "readNextLine cfg fs1 (fileHandles ! nat idx) (nat idx) lines positions")
          case (Inl e)
          with \<open>list_ex (\<lambda>line. line \<noteq> []) lines\<close> f w \<open>rw = Inr u\<close> False show ?thesis
            by (subst performMergeLoop.simps) simp
        next
          case (Inr x)
          obtain lines' positions' where x: "x = (lines', positions')" by (cases x)
          from readNextLine_bound [OF Inr [unfolded x] j ne Suc.prems(3,4) same] Suc.prems(1)
          have "mergeBound fs1 fileHandles lines' positions' \<le> fuel"
            and "length lines' = length fileHandles" and "length positions' = length fileHandles"
            by auto
          from Suc.IH [OF this(1) Suc.prems(2) this(2,3)]
          obtain res where "performMergeLoop fuel cfg fileHandles outFile lines' positions' fs1 = Some res"
            by blast
          with \<open>list_ex (\<lambda>line. line \<noteq> []) lines\<close> f w \<open>rw = Inr u\<close> False Inr x show ?thesis
            by (subst performMergeLoop.simps) simp
        qed
      qed
    qed
  qed
qed

lemma readInitialLines_length:
  "readInitialLines cfg fs fileHandles = Inr lines \<Longrightarrow> length lines = length fileHandles"
  by (induction fileHandles arbitrary: lines) (auto split: sum.splits)

lemma performMerge_returns:
  assumes "outFile \<notin> set fileHandles"
  shows "\<exists>fuel res. performMerge fuel cfg fileHandles outFile fs = Some res"
proof (cases "readInitialLines cfg fs fileHandles")
  case (Inl e)
  then show ?thesis by (simp add: performMerge_def)
next
  case (Inr lines)
  let ?positions = "replicate (length fileHandles) (lineSizeBytes cfg)"
  from performMergeLoop_returns [where fuel = "mergeBound fs fileHandles lines ?positions"
      and cfg = cfg and fs = fs and positions = ?positions, OF order_refl assms readInitialLines_length [OF Inr]]
  obtain res where "performMergeLoop (mergeBound fs fileHandles lines ?positions) cfg fileHandles outFile
      lines ?positions fs = Some res"
    by auto
  with Inr have "performMerge (mergeBound fs fileHandles lines ?positions) cfg fileHandles outFile fs
      = Some res"
    by (simp add: performMerge_def)
  then show ?thesis by blast
qed

subsection \<open>Merging well-formed runs\<close>

lemma runFile_window:
  "\<forall>p\<in>set ps. length (recordBytes p) = w \<Longrightarrow>
   take w (drop (k * w) (runFile ps)) = (if k < length ps then recordBytes (ps ! k) else [])"
proof (induction ps arbitrary: k)
  case Nil
  show ?case by (simp add: runFile_def)
next
  case (Cons p ps)
  from Cons.prems have len: "length (recordBytes p) = w" and rest: "\<forall>p\<in>set ps. length (recordBytes p) = w"
    by simp_all
  show ?case
  proof (cases k)
    case 0
    with len show ?thesis by (simp add: runFile_def)
  next
    case (Suc k')
    have "drop (Suc k' * w) (runFile (p # ps)) = drop (k' * w) (runFile ps)"
      using len by (simp add: runFile_def)
    with Cons.IH [OF rest, of k'] Suc show ?thesis by simp
  qed
qed

lemma fh_read_window:
  assumes "files fs h = Some (runFile ps)" and "\<forall>p\<in>set ps. cleanPayload cfg p"
  shows "fh_read fs h (Buffer_alloc (lineSizeBytes cfg)) (lineSizeBytes cfg) (k * lineSizeBytes cfg)
         = (if k < length ps then Inr (lineSizeBytes cfg, recordBytes (ps ! k))
            else Inr (0, Buffer_alloc (lineSizeBytes cfg)))"
proof -
  from assms(2) have "\<forall>p\<in>set ps. length (recordBytes p) = lineSizeBytes cfg"
    by (simp add: cleanPayload_def)
  from runFile_window [OF this, of k] assms show ?thesis
    by (auto simp: fh_read_def Let_def cleanPayload_def Buffer_alloc_def)
qed

lemma mset_concat_update:
  assumes "j < length rs" and "rs ! j = m # t"
  shows "mset (concat rs) = add_mset m (mset (concat (rs[j := t])))"
proof -
  have "rs = take j rs @ (m # t) # drop (Suc j) rs"
    using assms id_take_nth_drop [of j rs] by simp
  moreover have "rs[j := t] = take j rs @ t # drop (Suc j) rs"
    using assms(1) by (rule upd_conv_take_nth_drop)
  ultimately have "mset (concat rs) = mset (concat (take j rs)) + add_mset m (mset t)
        + mset (concat (drop (Suc j) rs))"
    and "mset (concat (rs[j := t])) = mset (concat (take j rs)) + mset t
        + mset (concat (drop (Suc j) rs))"
    by (metis concat.simps(2) concat_append mset.simps(2) mset_append union_assoc)+
  then show ?thesis by simp
qed

lemma sort_concat_update:
  assumes j: "j < length rs" and hd: "rs ! j = m # t"
    and least: "\<forall>x\<in>set (concat rs). m \<le> x"
  shows "sort (concat rs) = m # sort (concat (rs[j := t]))"
proof (rule properties_for_sort)
  show "mset (m # sort (concat (rs[j := t]))) = mset (concat rs)"
    using mset_concat_update [OF j hd] by simp
  have "set_mset (mset (concat rs)) = insert m (set_mset (mset (concat (rs[j := t]))))"
    by (simp only: mset_concat_update [OF j hd] set_mset_add_mset_insert)
  then have "set (concat (rs[j := t])) \<subseteq> set (concat rs)"
    by (simp only: set_mset_mset) blast
  with least show "sorted (m # sort (concat (rs[j := t])))"
    by auto
qed

lemma runsInFiles_iff:
  "runsInFiles cfg fs fileHandles runs \<longleftrightarrow>
     length runs = length fileHandles
     \<and> (\<forall>i<length runs. files fs (fileHandles ! i) = Some (runFile (runs ! i)))
     \<and> (\<forall>i<length runs. runs ! i \<noteq> [] \<and> sorted (runs ! i)
           \<and> (\<forall>p\<in>set (runs ! i). cleanPayload cfg p \<and> p < MAX_ASCII_CHAR))"
  by (auto simp: runsInFiles_def list_all_iff all_set_conv_all_nth)

lemma remainders_nth:
  "i < length runs \<Longrightarrow> remainders runs consumed ! i = drop (consumed ! i) (runs ! i)"
  by (simp add: remainders_def)

lemma remainders_update:
  assumes "j < length runs" and "length consumed = length runs"
  shows "remainders runs (consumed[j := c]) = (remainders runs consumed)[j := drop c (runs ! j)]"
proof (rule nth_equalityI)
  show "length (remainders runs (consumed[j := c])) = length ((remainders runs consumed)[j := drop c (runs ! j)])"
    by (simp add: remainders_def)
next
  fix i
  assume "i < length (remainders runs (consumed[j := c]))"
  then have i: "i < length runs" by (simp add: remainders_def)
  show "remainders runs (consumed[j := c]) ! i = (remainders runs consumed)[j := drop c (runs ! j)] ! i"
  proof (cases "i = j")
    case True
    with i assms show ?thesis by (simp add: remainders_def)
  next
    case False
    with i assms show ?thesis by (simp add: remainders_def)
  qed
qed

lemma bufferHead_drop:
  "bufferHead (drop c run) = (if c < length run then run ! c else [])"
  by (simp add: bufferHead_def Cons_nth_drop_Suc [symmetric] split: list.splits)

lemma performMergeLoop_sorted:
  "runsInFiles cfg fs fileHandles runs \<Longrightarrow> outFile \<notin> set fileHandles \<Longrightarrow>
   files fs outFile = Some written \<Longrightarrow> length consumed = length runs \<Longrightarrow>
   length (concat (remainders runs consumed)) = n \<Longrightarrow>
   performMergeLoop n cfg fileHandles outFile (buffersOf runs consumed) (cursorsOf cfg consumed) fs
   = Some (Inr (), fs\<lparr>files := (files fs)(outFile \<mapsto>
        written @ runFile (sort (concat (remainders runs consumed))))\<rparr>)"
proof (induction n arbitrary: consumed fs written)
  case 0
  then have "concat (remainders runs consumed) = []" by simp
  then have empty: "\<forall>r\<in>set (remainders runs consumed). r = []" by simp
  then have "\<not> list_ex (\<lambda>line. line \<noteq> []) (buffersOf runs consumed)"
    by (auto simp: buffersOf_def list_ex_iff bufferHead_def)
  moreover have "(files fs)(outFile \<mapsto> written) = files fs"
    using "0.prems"(3) by (simp add: map_upd_triv)
  then have "fs\<lparr>files := (files fs)(outFile \<mapsto>
        written @ runFile (sort (concat (remainders runs consumed))))\<rparr> = fs"
    unfolding \<open>concat (remainders runs consumed) = []\<close> by (simp add: runFile_def)
  ultimately show ?case
    by (subst performMergeLoop.simps) simp
next
  case (Suc n)
  let ?w = "lineSizeBytes cfg"
  let ?rem = "remainders runs consumed"
  let ?lines = "buffersOf runs consumed"
  from Suc.prems(1) have len: "length runs = length fileHandles"
    and inFile: "\<forall>i<length runs. files fs (fileHandles ! i) = Some (runFile (runs ! i))"
    and wf: "\<forall>i<length runs. runs ! i \<noteq> [] \<and> sorted (runs ! i)
           \<and> (\<forall>p\<in>set (runs ! i). cleanPayload cfg p \<and> p < MAX_ASCII_CHAR)"
    by (simp_all add: runsInFiles_iff)
  have lrem: "length ?rem = length runs" by (simp add: remainders_def)
  have llines: "length ?lines = length runs" by (simp add: buffersOf_def lrem)
  have line: "?lines ! i = bufferHead (drop (consumed ! i) (runs ! i))" if "i < length runs" for i
    using that by (simp add: buffersOf_def lrem remainders_nth)
  have payload: "cleanPayload cfg p \<and> p < MAX_ASCII_CHAR \<and> p \<noteq> []"
    if "i < length runs" "p \<in> set (drop (consumed ! i) (runs ! i))" for i p
    using wf that by (metis cleanPayload_def in_set_dropD)
  have head_least: "?lines ! i \<le> x" if "i < length runs" "x \<in> set (drop (consumed ! i) (runs ! i))" for i x
  proof -
    from wf that(1) have "sorted (drop (consumed ! i) (runs ! i))"
      by (simp add: sorted_wrt_drop)
    moreover from that(2) obtain p ps where "drop (consumed ! i) (runs ! i) = p # ps"
      by (cases "drop (consumed ! i) (runs ! i)") auto
    ultimately show ?thesis
      using that by (auto simp: line bufferHead_def)
  qed
  from Suc.prems(5) have "concat ?rem \<noteq> []"
    by (metis list.size(3) nat.simps(3))
  then obtain i0 where i0: "i0 < length runs" "drop (consumed ! i0) (runs ! i0) \<noteq> []"
    by (auto simp: remainders_def)
  then obtain p0 ps0 where p0: "drop (consumed ! i0) (runs ! i0) = p0 # ps0"
    by (cases "drop (consumed ! i0) (runs ! i0)") auto
  with payload [OF i0(1), of p0] have "p0 \<noteq> []" "p0 \<le> MAX_ASCII_CHAR" by auto
  moreover have "p0 \<in> set ?lines"
    using i0(1) line [OF i0(1)] p0 llines by (metis bufferHead_def list.simps(5) nth_mem)
  ultimately obtain j where j: "j < length ?lines" and sel: "findMinLine ?lines = (?lines ! j, int j)"
    and least: "\<forall>k\<in>set ?lines. k \<noteq> [] \<longrightarrow> ?lines ! j \<le> k"
    using findMinLine_first_index [of p0 ?lines] by blast
  let ?m = "?lines ! j"
  let ?c = "consumed ! j"
  from j llines have jr: "j < length runs" by simp
  from findMinLine_selected [OF sel] have mne: "?m \<noteq> []" by simp
  with line [OF jr] have c: "?c < length (runs ! j)" and m: "?m = runs ! j ! ?c"
    by (auto simp: bufferHead_drop split: if_splits)
  then have remj: "?rem ! j = ?m # drop (Suc ?c) (runs ! j)"
    using jr by (simp add: remainders_nth Cons_nth_drop_Suc)
  have "?m \<in> set (drop ?c (runs ! j))"
    using remj jr by (simp add: remainders_nth)
  from payload [OF jr this] have clean: "cleanPayload cfg ?m" by simp
  have ex: "list_ex (\<lambda>line. line \<noteq> []) ?lines"
    using mne j by (auto simp: list_ex_iff)
  have least_all: "\<forall>x\<in>set (concat ?rem). ?m \<le> x"
  proof
    fix x
    assume "x \<in> set (concat ?rem)"
    then obtain i where i: "i < length runs" "x \<in> set (drop (consumed ! i) (runs ! i))"
      by (auto simp: remainders_def)
    from head_least [OF i] have "?lines ! i \<le> x" .
    moreover have "?lines ! i \<noteq> []"
      using i payload [OF i(1)] line [OF i(1)]
      by (cases "drop (consumed ! i) (runs ! i)") (auto simp: bufferHead_def)
    moreover have "?lines ! i \<in> set ?lines" using i(1) llines by simp
    ultimately show "?m \<le> x" using least by force
  qed
  let ?consumed' = "consumed[j := Suc ?c]"
  let ?fs1 = "fs\<lparr>files := (files fs)(outFile \<mapsto> written @ recordBytes ?m)\<rparr>"
  have pad: "padEnd ?m (?w - length EOL) = ?m"
    using clean by (simp add: cleanPayload_def recordBytes_def padEnd_def)
  have wr: "writeLineToOutput cfg outFile ?m fs = (Inr (), ?fs1)"
    using Suc.prems(3) by (simp add: writeLineToOutput_def fh_write_def pad bufferFromAscii_def recordBytes_def)
  have other: "fileHandles ! i \<noteq> outFile" if "i < length runs" for i
    using that len Suc.prems(2) by (metis nth_mem)
  have runs1: "runsInFiles cfg ?fs1 fileHandles runs"
    using Suc.prems(1) other by (simp add: runsInFiles_iff)
  have filej: "files ?fs1 (fileHandles ! j) = Some (runFile (runs ! j))"
    using inFile jr other by simp
  have cleanj: "\<forall>p\<in>set (runs ! j). cleanPayload cfg p"
    using wf jr by simp
  have wpos: "?w \<noteq> 0"
    using clean by (auto simp: cleanPayload_def recordBytes_def EOL_def)
  have cur: "cursorsOf cfg consumed ! j = Suc ?c * ?w"
    using jr Suc.prems(4) by (simp add: cursorsOf_def)
  have next_line: "(if Suc ?c < length (runs ! j) then trim (toStringAscii (recordBytes (runs ! j ! Suc ?c))) else [])
      = bufferHead (drop (Suc ?c) (runs ! j))"
    using wf jr by (auto simp: bufferHead_drop cleanPayload_def)
  have rd: "readNextLine cfg ?fs1 (fileHandles ! j) j ?lines (cursorsOf cfg consumed)
      = Inr (buffersOf runs ?consumed', cursorsOf cfg ?consumed')"
  proof -
    have l': "?lines[j := bufferHead (drop (Suc ?c) (runs ! j))] = buffersOf runs ?consumed'"
      using jr Suc.prems(4)
      by (simp add: buffersOf_def remainders_update map_update)
    have "Suc ?c * ?w + ?w = (Suc ?c + 1) * ?w" by simp
    then have p': "(cursorsOf cfg consumed)[j := Suc ?c * ?w + ?w] = cursorsOf cfg ?consumed'"
      by (simp only: cursorsOf_def map_update)
    show ?thesis
      unfolding readNextLine_def cur fh_read_window [OF filej cleanj]
      using wpos next_line l' p' by (auto simp: cur)
  qed
  have size': "length (concat (remainders runs ?consumed')) = n"
  proof -
    have "mset (concat ?rem) = add_mset ?m (mset (concat (?rem[j := drop (Suc ?c) (runs ! j)])))"
      using jr lrem remj by (intro mset_concat_update) simp_all
    then have "size (mset (concat ?rem)) = Suc (size (mset (concat (?rem[j := drop (Suc ?c) (runs ! j)]))))"
      by simp
    with Suc.prems(5) show ?thesis
      using jr Suc.prems(4) by (simp add: remainders_update)
  qed
  have srt: "sort (concat ?rem) = ?m # sort (concat (remainders runs ?consumed'))"
    using sort_concat_update [of j ?rem ?m "drop (Suc ?c) (runs ! j)"] jr lrem remj least_all Suc.prems(4)
    by (simp add: remainders_update)
  have out1: "files ?fs1 outFile = Some (written @ recordBytes ?m)" by simp
  have len': "length ?consumed' = length runs" using Suc.prems(4) by simp
  have final: "?fs1\<lparr>files := (files ?fs1)(outFile \<mapsto> X)\<rparr> = fs\<lparr>files := (files fs)(outFile \<mapsto> X)\<rparr>"
    for X by simp
  note ih = Suc.IH [OF runs1 Suc.prems(2) out1 len' size', unfolded final]
  have idx: "\<not> (int j < 0 \<or> int (length fileHandles) \<le> int j)"
    using jr len by simp
  have "written @ runFile (sort (concat ?rem))
      = (written @ recordBytes ?m) @ runFile (sort (concat (remainders runs ?consumed')))"
    by (simp add: srt runFile_def)
  then show ?case
    using ex sel wr idx rd ih
    by (subst performMergeLoop.simps) (simp del: append_assoc)
qed

lemma readInitialLines_heads:
  "length runs = length fileHandles \<Longrightarrow>
   \<forall>i<length runs. files fs (fileHandles ! i) = Some (runFile (runs ! i))
      \<and> runs ! i \<noteq> [] \<and> (\<forall>p\<in>set (runs ! i). cleanPayload cfg p) \<Longrightarrow>
   readInitialLines cfg fs fileHandles = Inr (map bufferHead runs)"
proof (induction fileHandles arbitrary: runs)
  case Nil
  then show ?case by simp
next
  case (Cons h hs)
  then obtain run rest where runs: "runs = run # rest" by (cases runs) auto
  from Cons.prems(2) [rule_format, of 0] runs
  have run: "files fs h = Some (runFile run)" "run \<noteq> []" "\<forall>p\<in>set run. cleanPayload cfg p"
    by auto
  have rest: "\<forall>i<length rest. files fs (hs ! i) = Some (runFile (rest ! i))
      \<and> rest ! i \<noteq> [] \<and> (\<forall>p\<in>set (rest ! i). cleanPayload cfg p)"
    using Cons.prems(2) runs by (metis Suc_less_eq length_Cons nth_Cons_Suc)
  from Cons.prems(1) runs have "length rest = length hs" by simp
  note ih = Cons.IH [OF this rest]
  from run(2) obtain p ps where "run = p # ps" by (cases run) auto
  with fh_read_window [OF run(1,3), of 0] run(3) ih runs show ?case
    by (simp add: bufferHead_def cleanPayload_def)
qed

lemma performMerge_sorted:
  assumes "runsInFiles cfg fs fileHandles runs" and "outFile \<notin> set fileHandles"
    and "files fs outFile = Some written"
  shows "performMerge (length (concat runs)) cfg fileHandles outFile fs
         = Some (Inr (), fs\<lparr>files := (files fs)(outFile \<mapsto> written @ runFile (sort (concat runs)))\<rparr>)"
proof -
  let ?zero = "replicate (length runs) (0::nat)"
  have rem: "remainders runs ?zero = runs"
    by (rule nth_equalityI) (simp_all add: remainders_def)
  from assms(1) have len: "length runs = length fileHandles" by (simp add: runsInFiles_iff)
  have heads: "readInitialLines cfg fs fileHandles = Inr (buffersOf runs ?zero)"
    unfolding buffersOf_def rem
    using assms(1) by (intro readInitialLines_heads) (simp_all add: runsInFiles_iff)
  have cur: "replicate (length fileHandles) (lineSizeBytes cfg) = cursorsOf cfg ?zero"
    by (simp add: cursorsOf_def len)
  from performMergeLoop_sorted [OF assms, of ?zero "length (concat runs)"]
  show ?thesis
    by (simp add: performMerge_def heads cur rem)
qed

lemma unlinkSegments_distinct:
  "distinct (map (resolve fs) segments) \<Longrightarrow>
   \<forall>s\<in>set segments. files fs (resolve fs s) \<noteq> None \<and> resolve fs s \<notin> unlinkDenied fs \<Longrightarrow>
   unlinkSegments segments fs
   = (Inr (), fs\<lparr>files := (\<lambda>p. if p \<in> resolve fs ` set segments then None else files fs p)\<rparr>)"
proof (induction segments arbitrary: fs)
  case Nil
  show ?case by simp
next
  case (Cons s rest)
  let ?fs1 = "fs\<lparr>files := (files fs)(resolve fs s := None)\<rparr>"
  from Cons.prems have "resolve fs x \<noteq> resolve fs s" if "x \<in> set rest" for x
    using that by (metis distinct.simps(2) image_eqI list.simps(9) set_map)
  with Cons.prems
  have present: "\<forall>x\<in>set rest. files ?fs1 (resolve ?fs1 x) \<noteq> None \<and> resolve ?fs1 x \<notin> unlinkDenied ?fs1"
    by simp
  from Cons.prems have "distinct (map (resolve ?fs1) rest)" by simp
  from Cons.IH [OF this present]
  have "unlinkSegments rest ?fs1
      = (Inr (), ?fs1\<lparr>files := (\<lambda>p. if p \<in> resolve ?fs1 ` set rest then None else files ?fs1 p)\<rparr>)" .
  moreover have "(\<lambda>p. if p \<in> resolve ?fs1 ` set rest then None else files ?fs1 p)
      = (\<lambda>p. if p \<in> resolve fs ` set (s # rest) then None else files fs p)"
    by auto
  ultimately show ?case
    using Cons.prems by (simp add: fsp_unlink_def dom_def)
qed

text \<open>The merge of well-formed runs, held by distinct files that may be read and removed,
  into an output file that is none of them: the output file holds the records of all runs
  in ascending order, the run files are deleted, and the open handles are as before.\<close>

lemma mergeSegments_sorted:
  assumes runs: "runsInFiles cfg fs (map (resolve fs) segments) runs"
    and out: "resolve fs outFilename \<notin> resolve fs ` set segments"
    and dir: "dirs fs (resolve fs outFilename) = None"
    and writable: "resolve fs outFilename \<notin> writeDenied fs"
    and dist: "distinct (map (resolve fs) segments)"
    and allowed: "\<forall>s\<in>set segments. resolve fs s \<notin> readDenied fs \<and> resolve fs s \<notin> unlinkDenied fs"
  shows "mergeSegments (length (concat runs)) cfg segments outFilename fs
         = Some (Inr (), fs\<lparr>files := (\<lambda>p. if p \<in> resolve fs ` set segments then None
               else if p = resolve fs outFilename then Some (runFile (sort (concat runs)))
               else files fs p)\<rparr>)"
proof -
  define hs where "hs = map (resolve fs) segments"
  define oh where "oh = resolve fs outFilename"
  from runs have len: "length runs = length segments"
    and ex: "\<forall>i<length runs. files fs (hs ! i) = Some (runFile (runs ! i))"
    unfolding hs_def runsInFiles_iff by auto
  have acc: "\<forall>s\<in>set segments. files fs (resolve fs s) \<noteq> None"
  proof
    fix s assume "s \<in> set segments"
    then obtain i where "i < length segments" "segments ! i = s"
      by (auto simp: in_set_conv_nth)
    with ex len show "files fs (resolve fs s) \<noteq> None" by (auto simp: hs_def)
  qed
  have oh: "oh \<notin> set hs" using out by (simp add: hs_def oh_def)
  define fs1 where "fs1 = fs\<lparr>handles := handles fs + mset hs\<rparr>"
  have o: "openSegments segments fs = (Inr hs, fs1)"
    unfolding fs1_def hs_def using acc allowed
    by (intro openSegments_accessible) (auto simp: fsp_access_def)
  define fs2 where "fs2 = fs1\<lparr>files := (files fs1)(oh \<mapsto> []),
      handles := add_mset oh (handles fs1)\<rparr>"
  have w: "fsp_open_write outFilename fs1 = (Inr oh, fs2)"
    using dir writable by (auto simp: fsp_open_write_def fs1_def fs2_def oh_def)
  have other: "hs ! i \<noteq> oh" if "i < length runs" for i
    using that len oh by (metis hs_def length_map nth_mem)
  have runs2: "runsInFiles cfg fs2 hs runs"
    using runs other by (simp add: runsInFiles_iff fs1_def fs2_def hs_def [symmetric])
  define fs3 where "fs3 = fs2\<lparr>files := (files fs2)(oh \<mapsto> [] @ runFile (sort (concat runs)))\<rparr>"
  have p: "performMerge (length (concat runs)) cfg hs oh fs2 = Some (Inr (), fs3)"
    unfolding fs3_def by (rule performMerge_sorted [OF runs2 oh]) (simp add: fs2_def)
  define fs4 where "fs4 = fh_close oh (fold fh_close hs fs3)"
  have h3: "handles fs3 = add_mset oh (handles fs + mset hs)"
    and f3: "files fs3 = (files fs)(oh \<mapsto> runFile (sort (concat runs)))"
    and u3: "unchangedNames fs fs3"
    by (simp_all add: fs1_def fs2_def fs3_def unchangedNames_def)
  have h4: "handles fs4 = handles fs" and f4: "files fs4 = files fs3" and u4: "unchangedNames fs fs4"
    using fold_fh_close [of hs fs3] u3
    by (simp_all add: fs4_def fh_close_def h3 unchangedNames_def)
  from u4 have r4: "resolve fs4 = resolve fs" and ud4: "unlinkDenied fs4 = unlinkDenied fs"
    by (simp_all add: unchangedNames_def)
  have "\<forall>s\<in>set segments. files fs4 (resolve fs4 s) \<noteq> None \<and> resolve fs4 s \<notin> unlinkDenied fs4"
    using acc out allowed by (auto simp: f4 f3 r4 ud4 oh_def)
  moreover have "distinct (map (resolve fs4) segments)" using dist by (simp add: r4)
  ultimately
  have "unlinkSegments segments fs4
      = (Inr (), fs4\<lparr>files := (\<lambda>p. if p \<in> resolve fs4 ` set segments then None else files fs4 p)\<rparr>)"
    using unlinkSegments_distinct [of fs4 segments] by blast
  then have c: "cleanupFiles hs oh segments fs3
      = (Inr (), fs4\<lparr>files := (\<lambda>p. if p \<in> resolve fs ` set segments then None else files fs4 p)\<rparr>)"
    unfolding r4 by (simp add: cleanupFiles_def fs4_def)
  have "(\<lambda>p. if p \<in> resolve fs ` set segments then None else files fs4 p)
      = (\<lambda>p. if p \<in> resolve fs ` set segments then None
             else if p = oh then Some (runFile (sort (concat runs)))
             else files fs p)"
    by (auto simp: f4 f3)
  then have "fs4\<lparr>files := (\<lambda>p. if p \<in> resolve fs ` set segments then None else files fs4 p)\<rparr>
      = fs\<lparr>files := (\<lambda>p. if p \<in> resolve fs ` set segments then None
               else if p = oh then Some (runFile (sort (concat runs)))
               else files fs p)\<rparr>"
    using h4 u4 by (intro filesystem.equality) (simp_all add: unchangedNames_def)
  with o w p c show ?thesis
    unfolding oh_def by (simp add: mergeSegments_def)
qed

subsection \<open>Sorting a well-formed file\<close>

lemma fh_read_record:
  assumes "files fs h = Some (runFile ps)" and "\<forall>p\<in>set ps. cleanPayload cfg p"
    and "length buffer = lineSizeBytes cfg"
  shows "fh_read fs h buffer (lineSizeBytes cfg) (k * lineSizeBytes cfg)
         = (if k < length ps then Inr (lineSizeBytes cfg, recordBytes (ps ! k)) else Inr (0, buffer))"
proof -
  from assms(2) have "\<forall>p\<in>set ps. length (recordBytes p) = lineSizeBytes cfg"
    by (simp add: cleanPayload_def)
  from runFile_window [OF this, of k] assms show ?thesis
    by (auto simp: fh_read_def Let_def cleanPayload_def)
qed

lemma checkLineLoop_wellformed:
  assumes f: "files fs h = Some (runFile ps)" and clean: "\<forall>p\<in>set ps. cleanPayload cfg p"
  shows "length ps - k = d \<Longrightarrow> length buffer = lineSizeBytes cfg \<Longrightarrow>
         checkLineLoop cfg fs h (k * lineSizeBytes cfg) buffer c = Inr (c + d)"
proof (induction d arbitrary: k buffer c)
  case 0
  then have "\<not> k < length ps" by simp
  with fh_read_record [OF f clean "0.prems"(2), of k] show ?case
    by (subst checkLineLoop.simps) simp
next
  case (Suc d)
  let ?w = "lineSizeBytes cfg"
  from Suc.prems(1) have k: "k < length ps" by simp
  then have cl: "cleanPayload cfg (ps ! k)" using clean by simp
  then have w: "?w \<noteq> 0" and len: "length (recordBytes (ps ! k)) = ?w"
    and tr: "trim (toStringAscii (recordBytes (ps ! k))) = ps ! k"
    by (auto simp: cleanPayload_def recordBytes_def EOL_def)
  from len have width: "length (ps ! k) + length EOL = ?w"
    by (simp add: recordBytes_def)
  from Suc.prems(1) have "length ps - Suc k = d" by simp
  from Suc.IH [OF this len, of "c + 1"]
  have "checkLineLoop cfg fs h (k * ?w + ?w) (recordBytes (ps ! k)) (c + 1) = Inr (c + Suc d)"
    by (simp add: add.commute)
  with fh_read_record [OF f clean Suc.prems(2), of k] k w tr width show ?case
    by (subst checkLineLoop.simps) simp
qed

lemma readSegmentLoop_wellformed:
  assumes f: "files fs h = Some (runFile ps)" and clean: "\<forall>p\<in>set ps. cleanPayload cfg p"
  shows "numberOfLinesPerSegment cfg - i = d \<Longrightarrow> length buffer = lineSizeBytes cfg \<Longrightarrow>
         readSegmentLoop cfg fs h (s * lineSizeBytes cfg) i buffer lines
         = Inr (lines @ take d (drop (s + i) ps))"
proof (induction d arbitrary: i buffer lines)
  case 0
  then show ?case by (subst readSegmentLoop.simps) simp
next
  case (Suc d)
  let ?w = "lineSizeBytes cfg"
  from Suc.prems(1) have i: "i < numberOfLinesPerSegment cfg" by simp
  have pos: "s * ?w + i * ?w = (s + i) * ?w" by (simp add: algebra_simps)
  show ?case
  proof (cases "s + i < length ps")
    case False
    with fh_read_record [OF f clean Suc.prems(2), of "s + i"] i show ?thesis
      by (subst readSegmentLoop.simps) (simp add: pos)
  next
    case True
    then have cl: "cleanPayload cfg (ps ! (s + i))" using clean by simp
    then have w: "?w \<noteq> 0" and len: "length (recordBytes (ps ! (s + i))) = ?w"
      and tr: "trim (toStringUtf8 (recordBytes (ps ! (s + i)))) = ps ! (s + i)"
      by (auto simp: cleanPayload_def recordBytes_def EOL_def)
    from Suc.prems(1) have "numberOfLinesPerSegment cfg - (i + 1) = d" by simp
    from Suc.IH [OF this len, of "lines @ [ps ! (s + i)]"]
    have "readSegmentLoop cfg fs h (s * ?w) (i + 1) (recordBytes (ps ! (s + i))) (lines @ [ps ! (s + i)])
        = Inr (lines @ ps ! (s + i) # take d (drop (Suc (s + i)) ps))"
      by simp
    moreover have "take (Suc d) (drop (s + i) ps) = ps ! (s + i) # take d (drop (Suc (s + i)) ps)"
      using True by (simp add: Cons_nth_drop_Suc [symmetric])
    ultimately show ?thesis
      using fh_read_record [OF f clean Suc.prems(2), of "s + i"] True i w tr
      by (subst readSegmentLoop.simps) (simp add: pos)
  qed
qed

lemma readSegment_wellformed:
  assumes "files fs h = Some (runFile ps)" and "\<forall>p\<in>set ps. cleanPayload cfg p"
  shows "readSegment cfg fs h (s * lineSizeBytes cfg)
         = Inr (take (numberOfLinesPerSegment cfg) (drop s ps))"
  using readSegmentLoop_wellformed [OF assms, of 0 "numberOfLinesPerSegment cfg"
      "Buffer_alloc (lineSizeBytes cfg)" s "[]"]
  by (simp add: readSegment_def Buffer_alloc_def)

lemma digitChar_inj: "a < 10 \<Longrightarrow> b < 10 \<Longrightarrow> digitChar a = digitChar b \<Longrightarrow> a = b"
proof -
  have "distinct ''0123456789''" by simp
  then show "a < 10 \<Longrightarrow> b < 10 \<Longrightarrow> digitChar a = digitChar b \<Longrightarrow> a = b"
    unfolding digitChar_def by (subst (asm) nth_eq_iff_index_eq) simp_all
qed

lemma decimal_nonempty: "decimal n \<noteq> []"
  by (subst decimal.simps) simp

lemma decimal_inj: "decimal a = decimal b \<Longrightarrow> a = b"
proof (induction a arbitrary: b rule: decimal.induct)
  case (1 a)
  show ?case
  proof (cases "a < 10")
    case True
    with "1.prems" have single: "decimal b = [digitChar a]"
      by (subst (asm) decimal.simps) simp
    have "b < 10"
    proof (rule ccontr)
      assume "\<not> b < 10"
      with single have "decimal (b div 10) @ [digitChar (b mod 10)] = [digitChar a]"
        by (subst (asm) decimal.simps) simp
      with decimal_nonempty [of "b div 10"] show False by simp
    qed
    with single have "digitChar b = digitChar a"
      by (subst (asm) decimal.simps) simp
    with True \<open>b < 10\<close> show ?thesis by (metis digitChar_inj)
  next
    case False
    with "1.prems" have snoc: "decimal b = decimal (a div 10) @ [digitChar (a mod 10)]"
      by (subst (asm) decimal.simps) simp
    have "\<not> b < 10"
    proof
      assume "b < 10"
      with snoc have "[digitChar b] = decimal (a div 10) @ [digitChar (a mod 10)]"
        by (subst (asm) decimal.simps) simp
      with decimal_nonempty [of "a div 10"] show False by simp
    qed
    with snoc have "decimal (b div 10) @ [digitChar (b mod 10)] = decimal (a div 10) @ [digitChar (a mod 10)]"
      by (subst (asm) decimal.simps) simp
    then have d: "decimal (a div 10) = decimal (b div 10)" and m: "digitChar (a mod 10) = digitChar (b mod 10)"
      by simp_all
    from "1.IH" [OF False d] have "a div 10 = b div 10" .
    moreover from m have "a mod 10 = b mod 10"
      by (intro digitChar_inj) simp_all
    ultimately show ?thesis by (metis div_mult_mod_eq)
  qed
qed

lemma tempFilePath_inj: "tempFilePath base a = tempFilePath base b \<Longrightarrow> a = b"
  by (auto simp: tempFilePath_def dest: decimal_inj)

lemma join_runFile: "xs \<noteq> [] \<Longrightarrow> join EOL xs @ EOL = runFile xs"
  by (induction EOL xs rule: join.induct) (simp_all add: runFile_def recordBytes_def)

lemma concat_chunksOf: "n \<noteq> 0 \<Longrightarrow> concat (chunksOf n xs) = xs"
  by (induction n xs rule: chunksOf.induct) (subst chunksOf.simps, simp)

lemma chunksOf_nonempty: "ch \<in> set (chunksOf n xs) \<Longrightarrow> ch \<noteq> [] \<and> set ch \<subseteq> set xs"
proof (induction n xs rule: chunksOf.induct)
  case (1 n xs)
  show ?case
  proof (cases "n = 0 \<or> xs = []")
    case True
    with "1.prems" show ?thesis by (subst (asm) chunksOf.simps) simp
  next
    case False
    with "1.prems" have "ch = take n xs \<or> ch \<in> set (chunksOf n (drop n xs))"
      by (subst (asm) chunksOf.simps) simp
    then show ?thesis
    proof
      assume "ch = take n xs"
      with False show ?thesis by (auto dest: in_set_takeD)
    next
      assume "ch \<in> set (chunksOf n (drop n xs))"
      from "1.IH" [OF False this] show ?thesis by (auto dest: in_set_dropD)
    qed
  qed
qed

lemma sortSegmentsLoop_wellformed:
  assumes clean: "\<forall>p\<in>set ps. cleanPayload cfg p" and n: "numberOfLinesPerSegment cfg \<noteq> 0"
  shows "files fs h = Some (runFile ps) \<Longrightarrow>
         \<forall>k. resolve fs (tempFilePath nameNoEnd k) \<noteq> h
              \<and> dirs fs (resolve fs (tempFilePath nameNoEnd k)) = None
              \<and> resolve fs (tempFilePath nameNoEnd k) \<notin> writeDenied fs \<Longrightarrow>
         \<forall>j k. resolve fs (tempFilePath nameNoEnd j) = resolve fs (tempFilePath nameNoEnd k) \<longrightarrow> j = k \<Longrightarrow>
         \<exists>fs'. sortSegmentsLoop cfg h nameNoEnd segments c (s * lineSizeBytes cfg) fs
                = (Inr (segments @ map (tempFilePath nameNoEnd)
                     [c..<c + length (chunksOf (numberOfLinesPerSegment cfg) (drop s ps))]), fs')
           \<and> (\<forall>i<length (chunksOf (numberOfLinesPerSegment cfg) (drop s ps)).
                 files fs' (resolve fs (tempFilePath nameNoEnd (c + i)))
                 = Some (runFile (sort (chunksOf (numberOfLinesPerSegment cfg) (drop s ps) ! i))))
           \<and> (\<forall>p. (\<forall>i<length (chunksOf (numberOfLinesPerSegment cfg) (drop s ps)).
                      p \<noteq> resolve fs (tempFilePath nameNoEnd (c + i)))
                   \<longrightarrow> files fs' p = files fs p)
           \<and> unchangedNames fs fs' \<and> handles fs' = handles fs"
proof (induction "length ps - s" arbitrary: s segments c fs rule: less_induct)
  case less
  let ?n = "numberOfLinesPerSegment cfg"
  let ?w = "lineSizeBytes cfg"
  let ?name = "tempFilePath nameNoEnd"
  let ?file = "\<lambda>k. resolve fs (tempFilePath nameNoEnd k)"
  let ?rest = "drop s ps"
  have rd: "readSegment cfg fs h (s * ?w) = Inr (take ?n ?rest)"
    by (rule readSegment_wellformed [OF less.prems(1) clean])
  show ?case
  proof (cases "?rest = []")
    case True
    then have "chunksOf ?n ?rest = []" by (subst chunksOf.simps) simp
    with rd True show ?thesis
      by (subst sortSegmentsLoop.simps) (simp add: unchangedNames_refl)
  next
    case False
    let ?chunk = "take ?n ?rest"
    let ?fs1 = "fs\<lparr>files := (files fs)(?file c \<mapsto> runFile (sort ?chunk))\<rparr>"
    have r1: "resolve ?fs1 = resolve fs" by simp
    from False n have chunk: "?chunk \<noteq> []" by simp
    then have "sort ?chunk \<noteq> []" by (metis length_0_conv length_sort)
    then have wr: "writeSortedSegment ?chunk c nameNoEnd fs = (Inr (?name c), ?fs1)"
      using less.prems(2)
      by (simp add: writeSortedSegment_def fsp_writeFile_def bufferFromAscii_def join_runFile dom_def)
    have lchunk: "length ?chunk = min ?n (length ps - s)" by simp
    let ?s' = "s + length ?chunk"
    have rest': "drop ?s' ps = drop ?n ?rest"
      by (simp add: lchunk min_def add.commute)
    have "chunksOf ?n ?rest = ?chunk # chunksOf ?n (drop ?n ?rest)"
      using False n by (subst chunksOf.simps) simp
    then have chunks: "chunksOf ?n ?rest = ?chunk # chunksOf ?n (drop ?s' ps)"
      by (simp only: rest')
    from False chunk have smaller: "length ps - ?s' < length ps - s"
      by (simp add: lchunk min_def) arith
    from less.prems(2) have "?file c \<noteq> h" by blast
    then have in1: "files ?fs1 h = Some (runFile ps)"
      using less.prems(1) by simp
    have dirs1: "\<forall>k. resolve ?fs1 (?name k) \<noteq> h \<and> dirs ?fs1 (resolve ?fs1 (?name k)) = None
        \<and> resolve ?fs1 (?name k) \<notin> writeDenied ?fs1"
      using less.prems(2) by simp
    have inj1: "\<forall>j k. resolve ?fs1 (?name j) = resolve ?fs1 (?name k) \<longrightarrow> j = k"
      using less.prems(3) by simp
    from less.hyps [OF smaller in1 dirs1 inj1, of "segments @ [?name c]" "c + 1"]
    obtain fs' where loop: "sortSegmentsLoop cfg h nameNoEnd (segments @ [?name c]) (c + 1) (?s' * ?w) ?fs1
          = (Inr ((segments @ [?name c]) @ map ?name [c + 1..<c + 1 + length (chunksOf ?n (drop ?s' ps))]), fs')"
      and content: "\<forall>i<length (chunksOf ?n (drop ?s' ps)).
          files fs' (?file (c + 1 + i)) = Some (runFile (sort (chunksOf ?n (drop ?s' ps) ! i)))"
      and others: "\<forall>p. (\<forall>i<length (chunksOf ?n (drop ?s' ps)). p \<noteq> ?file (c + 1 + i))
          \<longrightarrow> files fs' p = files ?fs1 p"
      and same: "unchangedNames ?fs1 fs' \<and> handles fs' = handles ?fs1"
      unfolding r1 by blast
    have pos: "s * ?w + length ?chunk * ?w = ?s' * ?w" by (simp add: algebra_simps)
    have step: "sortSegmentsLoop cfg h nameNoEnd segments c (s * ?w) fs
        = sortSegmentsLoop cfg h nameNoEnd (segments @ [?name c]) (c + 1) (?s' * ?w) ?fs1"
      using rd chunk wr by (subst sortSegmentsLoop.simps) (simp add: pos del: length_take)
    have upt: "[c..<c + Suc m] = c # [c + 1..<c + 1 + m]" for m
      by (simp add: upt_conv_Cons)
    have "length (chunksOf ?n ?rest) = Suc (length (chunksOf ?n (drop ?s' ps)))"
      by (simp only: chunks list.size)
    then have names: "segments @ map ?name [c..<c + length (chunksOf ?n ?rest)]
        = (segments @ [?name c]) @ map ?name [c + 1..<c + 1 + length (chunksOf ?n (drop ?s' ps))]"
      by (simp only: upt) simp
    have first: "files fs' (?file c) = Some (runFile (sort ?chunk))"
    proof -
      have "\<forall>i<length (chunksOf ?n (drop ?s' ps)). ?file c \<noteq> ?file (c + 1 + i)"
        using less.prems(3) by fastforce
      with others have "files fs' (?file c) = files ?fs1 (?file c)" by blast
      then show ?thesis by simp
    qed
    have c1: "files fs' (?file (c + i)) = Some (runFile (sort (chunksOf ?n ?rest ! i)))"
      if "i < length (chunksOf ?n ?rest)" for i
    proof (cases i)
      case 0
      with first show ?thesis by (simp add: chunks)
    next
      case (Suc i')
      with that content show ?thesis by (simp add: chunks)
    qed
    have c2: "files fs' p = files fs p"
      if "\<forall>i<length (chunksOf ?n ?rest). p \<noteq> ?file (c + i)" for p
    proof -
      from that have "p \<noteq> ?file c" by (auto simp: chunks)
      moreover from that have "\<forall>i<length (chunksOf ?n (drop ?s' ps)). p \<noteq> ?file (c + 1 + i)"
        by (auto simp: chunks)
      ultimately show ?thesis using others by simp
    qed
    from same have "unchangedNames fs fs' \<and> handles fs' = handles fs"
      by (simp add: unchangedNames_def)
    with loop c1 c2 show ?thesis
      unfolding step names by auto
  qed
qed

lemma sort_concat_sorted_chunks: "sort (concat (map sort chunks)) = sort (concat chunks)"
proof (rule properties_for_sort)
  have "mset (concat (map sort chunks)) = mset (concat chunks)"
    by (induction chunks) simp_all
  then show "mset (sort (concat chunks)) = mset (concat (map sort chunks))" by simp
  show "sorted (sort (concat chunks))" by simp
qed

lemma length_concat_sorted_chunks: "length (concat (map sort chunks)) = length (concat chunks)"
  by (induction chunks) simp_all

text \<open>
  The sort of a well-formed file. The input file holds clean payloads below the sentinel,
  each followed by the terminator; it may be read, it is within the size limit and its
  number of records is a multiple of the (positive) number of records per segment; the
  output path denotes a regular file that may be written; the run names denote files that
  differ from each other, from the input file and from the output file, none of them a
  directory, which may be written, read and removed. Then \<open>Sort\<close>, with one unit of
  fuel per record, succeeds; the output file holds the records of the input in ascending
  order; the run names can no longer be accessed; no other file changes and the open
  handles are as before.
\<close>

lemma Sort_wellformed:
  assumes inp: "files fs (resolve fs inFilename) = Some (runFile payloads)"
    and readable: "resolve fs inFilename \<notin> readDenied fs"
    and clean: "\<forall>p\<in>set payloads. cleanPayload cfg p \<and> p < MAX_ASCII_CHAR"
    and size: "length (runFile payloads) \<le> maxFileSizeBytes cfg"
    and n: "numberOfLinesPerSegment cfg \<noteq> 0"
    and div: "length payloads mod numberOfLinesPerSegment cfg = 0"
    and out: "files fs (resolve fs outFilename) \<noteq> None" "dirs fs (resolve fs outFilename) = None"
      "resolve fs outFilename \<notin> writeDenied fs"
    and temp: "\<forall>k. resolve fs (tempFilePath (fileNameNoEnd inFilename) k) \<noteq> resolve fs outFilename
                  \<and> resolve fs (tempFilePath (fileNameNoEnd inFilename) k) \<noteq> resolve fs inFilename
                  \<and> dirs fs (resolve fs (tempFilePath (fileNameNoEnd inFilename) k)) = None
                  \<and> resolve fs (tempFilePath (fileNameNoEnd inFilename) k)
                      \<notin> writeDenied fs \<union> readDenied fs \<union> unlinkDenied fs"
    and apart: "\<forall>j k. resolve fs (tempFilePath (fileNameNoEnd inFilename) j)
                      = resolve fs (tempFilePath (fileNameNoEnd inFilename) k) \<longrightarrow> j = k"
  shows "\<exists>fs'. Sort (length payloads) cfg inFilename outFilename fs = Some (Inr (), fs')
           \<and> files fs' (resolve fs outFilename) = Some (runFile (sort payloads))
           \<and> (\<forall>k<length (chunksOf (numberOfLinesPerSegment cfg) payloads).
                 \<not> fsp_access fs' (tempFilePath (fileNameNoEnd inFilename) k))
           \<and> (\<forall>p. p \<noteq> resolve fs outFilename
                   \<and> (\<forall>k<length (chunksOf (numberOfLinesPerSegment cfg) payloads).
                         p \<noteq> resolve fs (tempFilePath (fileNameNoEnd inFilename) k))
                 \<longrightarrow> files fs' p = files fs p)
           \<and> handles fs' = handles fs \<and> unchangedNames fs fs'"
proof -
  let ?n = "numberOfLinesPerSegment cfg"
  let ?name = "tempFilePath (fileNameNoEnd inFilename)"
  let ?file = "\<lambda>k. resolve fs (tempFilePath (fileNameNoEnd inFilename) k)"
  let ?chunks = "chunksOf ?n payloads"
  let ?segs = "map ?name [0..<length ?chunks]"
  let ?runs = "map sort ?chunks"
  define h where "h = resolve fs inFilename"
  define oh where "oh = resolve fs outFilename"
  from clean have cl: "\<forall>p\<in>set payloads. cleanPayload cfg p" by simp
  define fs1 where "fs1 = fs\<lparr>handles := add_mset h (handles fs)\<rparr>"
  have r1: "resolve fs1 = resolve fs" by (simp add: fs1_def)
  have in1: "files fs1 h = Some (runFile payloads)" by (simp add: fs1_def inp h_def)
  have "checkLineLoop cfg fs1 h (0 * lineSizeBytes cfg) (Buffer_alloc (lineSizeBytes cfg)) 0
      = Inr (0 + length payloads)"
    by (rule checkLineLoop_wellformed [OF in1 cl]) (simp_all add: Buffer_alloc_def)
  then have "checkLineLengthAndCount cfg fs1 h = Inr ()"
    using n div by (simp add: checkLineLengthAndCount_def)
  then have v: "validateInput cfg inFilename outFilename fs = (Inr (), fs)"
    using inp size out readable
    by (simp add: validateInput_def checkFileExists_def checkFileSizeLimit_def fsp_access_def
        fsp_stat_size_def validateFileContents_def fsp_open_read_def checkOutputDirectory_def
        fh_close_def dom_def fs1_def h_def)
  have dirs1: "\<forall>k. resolve fs1 (?name k) \<noteq> h \<and> dirs fs1 (resolve fs1 (?name k)) = None
      \<and> resolve fs1 (?name k) \<notin> writeDenied fs1"
    using temp by (simp add: fs1_def h_def)
  have apart1: "\<forall>j k. resolve fs1 (?name j) = resolve fs1 (?name k) \<longrightarrow> j = k"
    using apart by (simp add: fs1_def)
  from sortSegmentsLoop_wellformed [OF cl n in1 dirs1 apart1, of "[]" 0 0]
  obtain fs2 where loop: "sortSegmentsLoop cfg h (fileNameNoEnd inFilename) [] 0 0 fs1 = (Inr ?segs, fs2)"
    and content: "\<forall>i<length ?chunks. files fs2 (?file i) = Some (runFile (sort (?chunks ! i)))"
    and others: "\<forall>p. (\<forall>i<length ?chunks. p \<noteq> ?file i) \<longrightarrow> files fs2 p = files fs1 p"
    and same: "unchangedNames fs1 fs2" "handles fs2 = handles fs1"
    unfolding r1 by auto
  define fs3 where "fs3 = fh_close h fs2"
  have s: "sortSegments cfg inFilename fs = (Inr ?segs, fs3)"
    using inp loop readable
    by (simp add: sortSegments_def fsp_open_read_def fsp_access_def dom_def fs1_def fs3_def h_def)
  have f3: "files fs3 = files fs2" and u3: "unchangedNames fs fs3" and h3: "handles fs3 = handles fs"
    using same by (simp_all add: fs3_def fh_close_def fs1_def unchangedNames_def)
  from u3 have r3: "resolve fs3 = resolve fs" and d3: "dirs fs3 = dirs fs"
    and p3: "readDenied fs3 = readDenied fs" "writeDenied fs3 = writeDenied fs"
      "unlinkDenied fs3 = unlinkDenied fs"
    by (simp_all add: unchangedNames_def)
  have "ch \<noteq> [] \<and> sorted (sort ch) \<and> (\<forall>p\<in>set (sort ch). cleanPayload cfg p \<and> p < MAX_ASCII_CHAR)"
    if "ch \<in> set ?chunks" for ch
    using chunksOf_nonempty [OF that] clean by auto
  then have "\<forall>i<length ?chunks. sort (?chunks ! i) \<noteq> [] \<and> sorted (sort (?chunks ! i))
      \<and> (\<forall>p\<in>set (sort (?chunks ! i)). cleanPayload cfg p \<and> p < MAX_ASCII_CHAR)"
    by (metis length_0_conv length_sort nth_mem)
  with content have runs: "runsInFiles cfg fs3 (map (resolve fs3) ?segs) ?runs"
    by (simp add: runsInFiles_iff f3 r3)
  have notin: "resolve fs3 outFilename \<notin> resolve fs3 ` set ?segs"
    unfolding r3 using temp by auto
  have dist: "distinct (map (resolve fs3) ?segs)"
    unfolding r3 using apart by (simp add: distinct_map inj_on_def)
  have dout: "dirs fs3 (resolve fs3 outFilename) = None" using out(2) by (simp add: d3 r3)
  have wout: "resolve fs3 outFilename \<notin> writeDenied fs3" using out(3) by (simp add: p3 r3)
  have allowed: "\<forall>s\<in>set ?segs. resolve fs3 s \<notin> readDenied fs3 \<and> resolve fs3 s \<notin> unlinkDenied fs3"
    unfolding r3 p3 using temp by auto
  have total: "length (concat ?runs) = length payloads"
    using n by (simp add: length_concat_sorted_chunks concat_chunksOf)
  have sorted_all: "sort (concat ?runs) = sort payloads"
    using n by (simp add: sort_concat_sorted_chunks concat_chunksOf)
  from mergeSegments_sorted [OF runs notin dout wout dist allowed]
  have m: "mergeSegments (length payloads) cfg ?segs outFilename fs3
      = Some (Inr (), fs3\<lparr>files := (\<lambda>p. if p \<in> resolve fs ` set ?segs then None
             else if p = oh then Some (runFile (sort payloads)) else files fs3 p)\<rparr>)"
    unfolding r3 oh_def by (simp only: total sorted_all)
  let ?fs' = "fs3\<lparr>files := (\<lambda>p. if p \<in> resolve fs ` set ?segs then None
             else if p = oh then Some (runFile (sort payloads)) else files fs3 p)\<rparr>"
  have "Sort (length payloads) cfg inFilename outFilename fs = Some (Inr (), ?fs')"
    using v s m by (simp add: Sort_def)
  moreover have "files ?fs' oh = Some (runFile (sort payloads))"
    using notin by (simp add: r3 oh_def)
  moreover have "\<forall>k<length ?chunks. \<not> fsp_access ?fs' (?name k)"
    using temp by (simp add: fsp_access_def r3 d3 dom_def)
  moreover have "files ?fs' p = files fs p"
    if "p \<noteq> oh \<and> (\<forall>k<length ?chunks. p \<noteq> ?file k)" for p
  proof -
    from that have "p \<notin> resolve fs ` set ?segs" by auto
    with that others show ?thesis by (simp add: f3 fs1_def)
  qed
  moreover have "handles ?fs' = handles fs \<and> unchangedNames fs ?fs'"
    using u3 by (simp add: h3 unchangedNames_def)
  ultimately show ?thesis unfolding oh_def by blast
qed

text \<open>The scenario of the specification: width 7, two records per segment, the records
  \<open>charl\<close>, \<open>alice\<close>, \<open>brian\<close>, \<open>danie\<close>.\<close>

lemma Sort_wellformed_scenario:
  "outcomeOf (Sort 4 (sorter 2 7) ''in.txt'' ''out.txt''
       (inputAndOutput (runFile [''charl'', ''alice'', ''brian'', ''danie''])))
     = Some (Inr ())
   \<and> fileAfter (Sort 4 (sorter 2 7) ''in.txt'' ''out.txt''
       (inputAndOutput (runFile [''charl'', ''alice'', ''brian'', ''danie'']))) ''out.txt''
     = Some (runFile [''alice'', ''brian'', ''charl'', ''danie''])"
proof -
  let ?ps = "[''charl'', ''alice'', ''brian'', ''danie'']"
  let ?fs = "inputAndOutput (runFile ?ps)"
  have plain: "resolve ?fs = (\<lambda>p. p)"
    by (simp add: inputAndOutput_def plainFiles_def)
  have inp: "files ?fs (resolve ?fs ''in.txt'') = Some (runFile ?ps)"
    by (simp add: inputAndOutput_def plainFiles_def)
  have readable: "resolve ?fs ''in.txt'' \<notin> readDenied ?fs"
    by (simp add: inputAndOutput_def plainFiles_def)
  have clean: "\<forall>p\<in>set ?ps. cleanPayload (sorter 2 7) p \<and> p < MAX_ASCII_CHAR"
    by (simp add: sorter_def cleanPayload_def recordBytes_def str_defs)
  have size: "length (runFile ?ps) \<le> maxFileSizeBytes (sorter 2 7)"
    by (simp add: sorter_def runFile_def recordBytes_def EOL_def)
  have n: "numberOfLinesPerSegment (sorter 2 7) \<noteq> 0"
    and d: "length ?ps mod numberOfLinesPerSegment (sorter 2 7) = 0"
    by (simp_all add: sorter_def)
  have out: "files ?fs (resolve ?fs ''out.txt'') \<noteq> None" "dirs ?fs (resolve ?fs ''out.txt'') = None"
      "resolve ?fs ''out.txt'' \<notin> writeDenied ?fs"
    by (simp_all add: inputAndOutput_def plainFiles_def)
  have temp: "\<forall>k. resolve ?fs (tempFilePath (fileNameNoEnd ''in.txt'') k) \<noteq> resolve ?fs ''out.txt''
      \<and> resolve ?fs (tempFilePath (fileNameNoEnd ''in.txt'') k) \<noteq> resolve ?fs ''in.txt''
      \<and> dirs ?fs (resolve ?fs (tempFilePath (fileNameNoEnd ''in.txt'') k)) = None
      \<and> resolve ?fs (tempFilePath (fileNameNoEnd ''in.txt'') k)
          \<notin> writeDenied ?fs \<union> readDenied ?fs \<union> unlinkDenied ?fs"
    by (simp add: tempFilePath_def fileNameNoEnd_def inputAndOutput_def plainFiles_def
        TEMP_FILE_PREFIX_def TEMP_FILE_EXTENSION_def)
  have apart: "\<forall>j k. resolve ?fs (tempFilePath (fileNameNoEnd ''in.txt'') j)
      = resolve ?fs (tempFilePath (fileNameNoEnd ''in.txt'') k) \<longrightarrow> j = k"
    unfolding plain by (blast dest: tempFilePath_inj)
  have four: "length ?ps = 4" by simp
  have srt: "sort ?ps = [''alice'', ''brian'', ''charl'', ''danie'']" by simp
  from Sort_wellformed [OF inp readable clean size n d out temp apart]
  obtain fs' where "Sort 4 (sorter 2 7) ''in.txt'' ''out.txt'' ?fs = Some (Inr (), fs')"
    and "files fs' (resolve ?fs ''out.txt'') = Some (runFile [''alice'', ''brian'', ''charl'', ''danie''])"
    and "unchangedNames ?fs fs'"
    unfolding four srt by blast
  then show ?thesis
    by (simp add: obs_defs unchangedNames_def)
qed

subsection \<open>Merging: the loop need not end\<close>

text \<open>
  When the output file is the file of a run, the merge loop reads the terminator of the
  record it has just written, past the zero bytes of a fresh buffer, as a new record of
  five zero bytes: with any fuel it runs out of fuel, and \<open>Sort\<close> does not return.
\<close>

lemma performMergeLoop_reads_its_output:
  "files fs outFile = Some content \<Longrightarrow> length content + m = pos \<Longrightarrow> 5 \<le> m \<Longrightarrow>
   performMergeLoop fuel (sorter n 7) [outFile] outFile [replicate m (CHR 0x00)] [pos] fs = None"
proof (induction fuel arbitrary: fs content m pos)
  case 0
  then obtain m' where "m = Suc m'" by (cases m) auto
  then show ?case by (subst performMergeLoop.simps) simp
next
  case (Suc fuel)
  let ?line = "replicate m (CHR 0x00)"
  let ?fs1 = "fs\<lparr>files := (files fs)(outFile \<mapsto> content @ ?line @ EOL)\<rparr>"
  from Suc.prems(3) obtain m' where m: "m = Suc m'" by (cases m) auto
  have sel: "findMinLine [?line] = (?line, 0)"
    by (simp add: findMinLine_def minReducer_def MAX_ASCII_CHAR_def indexOf_def m)
  have ex: "list_ex (\<lambda>line. line \<noteq> []) [?line]" by (simp add: m)
  have wr: "writeLineToOutput (sorter n 7) outFile ?line fs = (Inr (), ?fs1)"
    using Suc.prems(1,3)
    by (simp add: writeLineToOutput_def fh_write_def bufferFromAscii_def padEnd_def sorter_def EOL_def)
  have "drop pos (content @ ?line @ EOL) = EOL"
    using Suc.prems(2) by auto
  then have rd: "readNextLine (sorter n 7) ?fs1 outFile 0 [?line] [pos]
      = Inr ([replicate 5 (CHR 0x00)], [pos + 7])"
    by (simp add: readNextLine_def fh_read_def sorter_def str_defs)
  have "files ?fs1 outFile = Some (content @ ?line @ EOL)" by simp
  moreover have "length (content @ ?line @ EOL) + 5 = pos + 7"
    using Suc.prems(2) by (simp add: EOL_def)
  ultimately have "performMergeLoop fuel (sorter n 7) [outFile] outFile [replicate 5 (CHR 0x00)] [pos + 7] ?fs1
      = None"
    by (rule Suc.IH) simp
  with ex sel wr rd show ?case
    by (subst performMergeLoop.simps) simp
qed

lemma Sort_does_not_return:
  "Sort fuel (sorter 1 7) ''in.txt'' ''in-temp-0.txt'' outputIsRun = None"
proof -
  let ?fs1 = "outputIsRun\<lparr>files := [''in.txt'' \<mapsto> ''abcde'' @ EOL, ''in-temp-0.txt'' \<mapsto> ''abcde'' @ EOL]\<rparr>"
  let ?fs2 = "outputIsRun\<lparr>handles := {#''in-temp-0.txt'', ''in-temp-0.txt''#}\<rparr>"
  have v: "validateInput (sorter 1 7) ''in.txt'' ''in-temp-0.txt'' outputIsRun = (Inr (), outputIsRun)"
    by (simp add: outputIsRun_def val_defs fs_defs str_defs ex_defs)
  have s: "sortSegments (sorter 1 7) ''in.txt'' outputIsRun = (Inr [''in-temp-0.txt''], ?fs1)"
    by (simp add: outputIsRun_def seg_defs fs_defs str_defs ex_defs)
  have "performMergeLoop fuel (sorter 1 7) [''in-temp-0.txt''] ''in-temp-0.txt''
      [replicate 7 (CHR 0x00)] [7] ?fs2 = None"
    by (rule performMergeLoop_reads_its_output [where content = "[]"])
       (simp_all add: outputIsRun_def plainFiles_def)
  then have "performMerge fuel (sorter 1 7) [''in-temp-0.txt''] ''in-temp-0.txt'' ?fs2 = None"
    by (simp add: performMerge_def fh_read_def sorter_def str_defs outputIsRun_def plainFiles_def)
  then have "mergeSegments fuel (sorter 1 7) [''in-temp-0.txt''] ''in-temp-0.txt'' ?fs1 = None"
    by (simp add: mergeSegments_def fs_defs outputIsRun_def plainFiles_def)
  with v s show ?thesis by (simp add: Sort_def)
qed

text \<open>
  The same with an output path that is another spelling of the name of a run: the two
  strings differ and the file is the same.
\<close>

lemma Sort_does_not_return_other_spelling:
  "Sort fuel (sorter 1 7) ''in.txt'' ''./in-temp-0.txt'' outputAliasesRun = None"
proof -
  let ?fs1 = "outputAliasesRun\<lparr>files := [''in.txt'' \<mapsto> ''abcde'' @ EOL, ''in-temp-0.txt'' \<mapsto> ''abcde'' @ EOL]\<rparr>"
  let ?fs2 = "outputAliasesRun\<lparr>handles := {#''in-temp-0.txt'', ''in-temp-0.txt''#}\<rparr>"
  have v: "validateInput (sorter 1 7) ''in.txt'' ''./in-temp-0.txt'' outputAliasesRun
      = (Inr (), outputAliasesRun)"
    by (simp add: outputAliasesRun_def outputIsRun_def val_defs fs_defs str_defs ex_defs)
  have s: "sortSegments (sorter 1 7) ''in.txt'' outputAliasesRun = (Inr [''in-temp-0.txt''], ?fs1)"
    by (simp add: outputAliasesRun_def outputIsRun_def seg_defs fs_defs str_defs ex_defs)
  have "performMergeLoop fuel (sorter 1 7) [''in-temp-0.txt''] ''in-temp-0.txt''
      [replicate 7 (CHR 0x00)] [7] ?fs2 = None"
    by (rule performMergeLoop_reads_its_output [where content = "[]"])
       (simp_all add: outputAliasesRun_def outputIsRun_def plainFiles_def)
  then have "performMerge fuel (sorter 1 7) [''in-temp-0.txt''] ''in-temp-0.txt'' ?fs2 = None"
    by (simp add: performMerge_def fh_read_def sorter_def str_defs outputAliasesRun_def
        outputIsRun_def plainFiles_def)
  then have "mergeSegments fuel (sorter 1 7) [''in-temp-0.txt''] ''./in-temp-0.txt'' ?fs1 = None"
    by (simp add: mergeSegments_def fs_defs outputAliasesRun_def outputIsRun_def plainFiles_def)
  with v s show ?thesis by (simp add: Sort_def)
qed

subsection \<open>An output file that may not be written\<close>

text \<open>
  The output check of the validation tests that the output path exists, not that it can
  be opened for writing. When it cannot, \<open>mergeSegments\<close> fails to open it, before its
  \<open>try\<close> block: the run file stays on storage and its handle stays open.
\<close>

lemma read_only_output_leaves_runs:
  "fst (validateInput (sorter 1 7) ''in.txt'' ''out.txt'' readOnlyOutput) = Inr ()
   \<and> outcomeOf (Sort 1 (sorter 1 7) ''in.txt'' ''out.txt'' readOnlyOutput) = Some (Inl IOFailure)
   \<and> fileAfter (Sort 1 (sorter 1 7) ''in.txt'' ''out.txt'' readOnlyOutput) ''in-temp-0.txt''
       = Some (''abcde'' @ EOL)
   \<and> handlesAfter (Sort 1 (sorter 1 7) ''in.txt'' ''out.txt'' readOnlyOutput) = {#''in-temp-0.txt''#}"
  by (simp add: obs_defs Sort_def val_defs seg_defs merge_defs fs_defs str_defs ex_defs)

section \<open>The claims\<close>

subsection \<open>The selection step of the merge\<close>

text \<open>
  C7, at the first iteration of the merge loop on a file of two equal records of width 4
  whose payload starts with the character of code 127, one record per segment: the two
  buffers hold the same value, the smallest buffered one, and \<open>findMinLine\<close> selects
  neither of them. It returns the sentinel and the index \<open>-1\<close>, where the claim has the
  buffer of index 0 selected, and \<open>Sort\<close> fails with a \<open>TypeError\<close>.
  (Lemma \<open>findMinLine_first_index\<close> above is the tie-break where it holds: when
  some buffered value does not exceed the sentinel.)
\<close>

theorem findMinLine_tie_above_sentinel:
  "fst (sortSegments (sorter 1 4) ''in.txt'' (inputAndOutput (delFile @ delFile)))
     = Inr [''in-temp-0.txt'', ''in-temp-1.txt'']
   \<and> readInitialLines (sorter 1 4)
       (snd (sortSegments (sorter 1 4) ''in.txt'' (inputAndOutput (delFile @ delFile))))
       [''in-temp-0.txt'', ''in-temp-1.txt'']
     = Inr [[CHR 0x7F, CHR ''a''], [CHR 0x7F, CHR ''a'']]
   \<and> findMinLine [[CHR 0x7F, CHR ''a''], [CHR 0x7F, CHR ''a'']] = (MAX_ASCII_CHAR, - 1)
   \<and> outcomeOf (Sort 1 (sorter 1 4) ''in.txt'' ''out.txt'' (inputAndOutput (delFile @ delFile)))
     = Some (Inl TypeError)"
  by (simp add: obs_defs Sort_def val_defs seg_defs merge_defs fs_defs str_defs ex_defs)

text \<open>
  C9, as stated, fails when a buffer holds exactly the sentinel string: every buffered
  value is greater than or equal to the sentinel, none is strictly below it, and
  \<open>findMinLine\<close> returns the valid index of that buffer.
\<close>

theorem findMinLine_sentinel_counterexample:
  "list_ex (\<lambda>l. l \<noteq> []) [[CHR 0x7F]] \<and> MAX_ASCII_CHAR \<le> [CHR 0x7F] \<and> \<not> [CHR 0x7F] < MAX_ASCII_CHAR
   \<and> findMinLine [[CHR 0x7F]] = (MAX_ASCII_CHAR, 0)"
  by (simp add: findMinLine_def minReducer_def MAX_ASCII_CHAR_def indexOf_def)

text \<open>
  C9, amended. In a merge state where at least one buffer is not exhausted:
  if every buffered value that is not exhausted is greater than or equal to the sentinel
  and no buffer holds exactly the sentinel, then \<open>findMinLine\<close> returns the sentinel
  with \<open>minIndex = -1\<close>, and the iteration of \<open>performMerge\<close> writes the padded
  sentinel to the output and then fails with a \<open>TypeError\<close> on
  \<open>fileHandles[-1]\<close>; and \<open>findMinLine\<close> returns a valid index only if some
  buffered value that is not exhausted is strictly below the sentinel, or some buffer
  holds exactly the sentinel.
\<close>

theorem findMinLine_sentinel:
  assumes "list_ex (\<lambda>l. l \<noteq> []) lines"
  shows "((\<forall>l\<in>set lines. l \<noteq> [] \<longrightarrow> MAX_ASCII_CHAR \<le> l) \<and> MAX_ASCII_CHAR \<notin> set lines
            \<longrightarrow> findMinLine lines = (MAX_ASCII_CHAR, - 1)
               \<and> (\<forall>content. files fs outFile = Some content \<longrightarrow>
                    performMergeLoop (Suc fuel) cfg fileHandles outFile lines positions fs
                    = Some (Inl TypeError,
                        fs\<lparr>files := (files fs)(outFile \<mapsto>
                              content @ padEnd MAX_ASCII_CHAR (lineSizeBytes cfg - length EOL) @ EOL)\<rparr>)))
         \<and> (0 \<le> snd (findMinLine lines)
            \<longrightarrow> (\<exists>l\<in>set lines. l \<noteq> [] \<and> l < MAX_ASCII_CHAR) \<or> MAX_ASCII_CHAR \<in> set lines)"
proof (intro conjI impI allI)
  assume a: "(\<forall>l\<in>set lines. l \<noteq> [] \<longrightarrow> MAX_ASCII_CHAR \<le> l) \<and> MAX_ASCII_CHAR \<notin> set lines"
  have "foldl minReducer MAX_ASCII_CHAR lines = MAX_ASCII_CHAR"
    using foldl_minReducer_cases [of MAX_ASCII_CHAR lines] a by auto
  with a show sel: "findMinLine lines = (MAX_ASCII_CHAR, - 1)"
    by (simp add: findMinLine_def Let_def indexOf_def indexOfFrom_notin)
  fix content
  assume "files fs outFile = Some content"
  with sel assms
  show "performMergeLoop (Suc fuel) cfg fileHandles outFile lines positions fs
        = Some (Inl TypeError,
            fs\<lparr>files := (files fs)(outFile \<mapsto>
                  content @ padEnd MAX_ASCII_CHAR (lineSizeBytes cfg - length EOL) @ EOL)\<rparr>)"
    by (simp add: performMergeLoop.simps writeLineToOutput_def fh_write_def bufferFromAscii_def)
next
  assume "0 \<le> snd (findMinLine lines)"
  then have "foldl minReducer MAX_ASCII_CHAR lines \<in> set lines"
    by (simp add: findMinLine_def Let_def indexOf_nonneg_iff)
  with foldl_minReducer_cases [of MAX_ASCII_CHAR lines]
  show "(\<exists>l\<in>set lines. l \<noteq> [] \<and> l < MAX_ASCII_CHAR) \<or> MAX_ASCII_CHAR \<in> set lines"
    by auto
qed

text \<open>The amended C9 at the buffer of one value \<open>DEL a\<close>, and at buffers where one
  value is below the sentinel.\<close>

theorem findMinLine_sentinel_witness:
  "findMinLine [[CHR 0x7F, CHR ''a'']] = (MAX_ASCII_CHAR, - 1)
   \<and> outcomeOf (performMergeLoop (Suc 0) (sorter 1 4) [''in-temp-0.txt''] ''out.txt''
        [[CHR 0x7F, CHR ''a'']] [4] (inputAndOutput delFile)) = Some (Inl TypeError)
   \<and> (\<exists>l\<in>set [''ab'', [CHR 0x7F, CHR ''a'']]. l \<noteq> [] \<and> l < MAX_ASCII_CHAR)"
  using findMinLine_sentinel [of "[[CHR 0x7F, CHR ''a'']]" "inputAndOutput delFile" "''out.txt''"
      0 "sorter 1 4" "[''in-temp-0.txt'']" "[4]"]
    findMinLine_sentinel [of "[''ab'', [CHR 0x7F, CHR ''a'']]"]
  by (simp add: MAX_ASCII_CHAR_def inputAndOutput_def plainFiles_def outcomeOf_def)

subsection \<open>Validation\<close>

text \<open>
  C4, at a file cut short: with \<open>lineSizeBytes = 7\<close>, the 9-byte file
  \<open>abcde\r\nxy\<close> has a last record of two bytes and no terminator, and the width
  check accepts it, counting two lines. The second read returns two bytes; they overwrite
  the front of the buffer that still holds the first record, and the buffer
  \<open>xycde\r\n\<close> trims to five characters. The claim has the check raise the width
  error for this file.
\<close>

theorem truncated_file_passes_width_check:
  "length truncatedFile = 9
   \<and> recordsOfFile truncatedFile = [''abcde'', ''xy'']
   \<and> checkLineLoop (sorter 1 7) (inputAndOutput truncatedFile) ''in.txt'' 0 (Buffer_alloc 7) 0 = Inr 2
   \<and> validateInput (sorter 1 7) ''in.txt'' ''out.txt'' (inputAndOutput truncatedFile)
       = (Inr (), inputAndOutput truncatedFile)"
  by (simp add: recordsOfFile_def val_defs fs_defs str_defs ex_defs)

text \<open>
  C6, at an output path whose parent directory exists and whose file does not exist yet:
  \<open>checkOutputDirectory\<close> tests the output path itself, not its parent directory,
  and fails; \<open>Sort\<close> fails with it. The claim has this path pass the check.
\<close>

theorem output_file_need_not_exist_rejected:
  "parentDirectory ''out/result.txt'' = ''out''
   \<and> fsp_access inputAndDirectory ''out''
   \<and> checkOutputDirectory ''out/result.txt'' inputAndDirectory = Inl OutputDirectoryMissing
   \<and> Sort 1 (sorter 1 7) ''in.txt'' ''out/result.txt'' inputAndDirectory
       = Some (Inl OutputDirectoryMissing, inputAndDirectory)"
  by (simp add: parentDirectory_def obs_defs Sort_def val_defs fs_defs str_defs ex_defs)

text \<open>
  C5. When validation fails with an error, \<open>Sort\<close> returns that error and the
  file system is the one before the call: no run file is created, the output file is
  neither created nor truncated, and no handle stays open. In particular, for an
  existing input file within the size limit whose records pass the width check and whose
  number of records is not a multiple of \<open>numberOfLinesPerSegment\<close>, \<open>Sort\<close>
  returns \<open>RecordCountNotDivisible\<close> (or, when the file may not be read, the failure
  of its opening) and leaves the file system as it was.
\<close>

theorem validation_failure_no_side_effects:
  "(fst (validateInput cfg inFilename outFilename fs) = Inl e
      \<longrightarrow> Sort fuel cfg inFilename outFilename fs = Some (Inl e, fs))
   \<and> (files fs (resolve fs inFilename) = Some content \<and> length content \<le> maxFileSizeBytes cfg
        \<and> checkLineLoop cfg fs (resolve fs inFilename) 0 (Buffer_alloc (lineSizeBytes cfg)) 0 = Inr lineCount
        \<and> lineCount mod numberOfLinesPerSegment cfg \<noteq> 0
      \<longrightarrow> Sort fuel cfg inFilename outFilename fs
          = Some (Inl (if resolve fs inFilename \<in> readDenied fs then IOFailure
                       else RecordCountNotDivisible), fs))"
proof (intro conjI impI)
  assume "fst (validateInput cfg inFilename outFilename fs) = Inl e"
  with validateInput_state [of cfg inFilename outFilename fs]
  have "validateInput cfg inFilename outFilename fs = (Inl e, fs)"
    by (cases "validateInput cfg inFilename outFilename fs") simp
  then show "Sort fuel cfg inFilename outFilename fs = Some (Inl e, fs)"
    by (simp add: Sort_def)
next
  let ?h = "resolve fs inFilename"
  assume a: "files fs ?h = Some content \<and> length content \<le> maxFileSizeBytes cfg
        \<and> checkLineLoop cfg fs ?h 0 (Buffer_alloc (lineSizeBytes cfg)) 0 = Inr lineCount
        \<and> lineCount mod numberOfLinesPerSegment cfg \<noteq> 0"
  have "checkLineLoop cfg (fs\<lparr>handles := add_mset ?h (handles fs)\<rparr>) ?h 0
          (Buffer_alloc (lineSizeBytes cfg)) 0 = Inr lineCount"
    using a checkLineLoop_files [of "fs\<lparr>handles := add_mset ?h (handles fs)\<rparr>" fs] by simp
  with a have "validateInput cfg inFilename outFilename fs
      = (Inl (if ?h \<in> readDenied fs then IOFailure else RecordCountNotDivisible), fs)"
    by (simp add: validateInput_def checkFileExists_def checkFileSizeLimit_def fsp_access_def
        fsp_stat_size_def validateFileContents_def fsp_open_read_def checkLineLengthAndCount_def
        fh_close_def dom_def)
  then show "Sort fuel cfg inFilename outFilename fs
      = Some (Inl (if ?h \<in> readDenied fs then IOFailure else RecordCountNotDivisible), fs)"
    by (simp add: Sort_def)
qed

text \<open>C5 at a file of three records with two records per segment, and at a missing
  input file.\<close>

theorem validation_failure_no_side_effects_witness:
  "Sort 0 (sorter 2 7) ''in.txt'' ''out.txt'' (inputAndOutput (''charl'' @ EOL @ ''alice'' @ EOL @ ''brian'' @ EOL))
     = Some (Inl RecordCountNotDivisible, inputAndOutput (''charl'' @ EOL @ ''alice'' @ EOL @ ''brian'' @ EOL))
   \<and> Sort 0 (sorter 2 7) ''missing.txt'' ''out.txt'' (inputAndOutput [])
     = Some (Inl InputNotFound, inputAndOutput [])"
  using validation_failure_no_side_effects [where cfg = "sorter 2 7" and inFilename = "''in.txt''"
      and outFilename = "''out.txt''"
      and fs = "inputAndOutput (''charl'' @ EOL @ ''alice'' @ EOL @ ''brian'' @ EOL)"
      and content = "''charl'' @ EOL @ ''alice'' @ EOL @ ''brian'' @ EOL" and lineCount = 3 and fuel = 0]
    validation_failure_no_side_effects [where cfg = "sorter 2 7" and inFilename = "''missing.txt''"
      and outFilename = "''out.txt''" and fs = "inputAndOutput []" and e = InputNotFound and fuel = 0]
  by (simp add: val_defs fs_defs str_defs ex_defs)

subsection \<open>The whole sort\<close>

text \<open>
  C1, at the file cut short that validation accepts (see C4), with one record per
  segment: \<open>Sort\<close> succeeds, and the records of the output file are \<open>abcde\<close>,
  then \<open>xy\<close> followed by five zero bytes, then five zero bytes. The second record is
  greater than the third: the output is not sorted.
  (Lemma \<open>Sort_wellformed\<close> above is the sort of a well-formed file, where the output
  is sorted.)
\<close>

theorem truncated_file_output_unsorted:
  "fst (validateInput (sorter 1 7) ''in.txt'' ''out.txt'' (inputAndOutput truncatedFile)) = Inr ()
   \<and> outcomeOf (Sort 3 (sorter 1 7) ''in.txt'' ''out.txt'' (inputAndOutput truncatedFile)) = Some (Inr ())
   \<and> map_option recordsOfFile
         (fileAfter (Sort 3 (sorter 1 7) ''in.txt'' ''out.txt'' (inputAndOutput truncatedFile)) ''out.txt'')
       = Some [''abcde'', ''xy'' @ replicate 5 (CHR 0x00), replicate 5 (CHR 0x00)]
   \<and> \<not> sorted [''abcde'', ''xy'' @ replicate 5 (CHR 0x00), replicate 5 (CHR 0x00)]"
  by (simp add: recordsOfFile_def obs_defs Sort_def val_defs seg_defs merge_defs fs_defs str_defs ex_defs)

text \<open>
  C2, at a well-formed file of one record of width 4 whose payload is the character of
  code 127 followed by \<open>a\<close>: validation passes, the merge writes the padded sentinel
  instead of the record and fails with a \<open>TypeError\<close>. The output file holds one
  record that the input does not hold, and the record of the input is lost.
  (Lemma \<open>Sort_wellformed\<close> above is the sort of a file whose payloads are below the
  sentinel, where the output holds the records of the input.)
\<close>

theorem del_record_lost:
  "recordsOfFile delFile = [[CHR 0x7F, CHR ''a'']]
   \<and> fst (validateInput (sorter 1 4) ''in.txt'' ''out.txt'' (inputAndOutput delFile)) = Inr ()
   \<and> outcomeOf (Sort 1 (sorter 1 4) ''in.txt'' ''out.txt'' (inputAndOutput delFile)) = Some (Inl TypeError)
   \<and> map_option recordsOfFile
         (fileAfter (Sort 1 (sorter 1 4) ''in.txt'' ''out.txt'' (inputAndOutput delFile)) ''out.txt'')
       = Some [[CHR 0x7F, CHR '' '']]"
  by (simp add: recordsOfFile_def obs_defs Sort_def val_defs seg_defs merge_defs fs_defs str_defs ex_defs)




subsection \<open>Run files\<close>

text \<open>
  C8, as stated, fails for an input path that does not end in \<open>.txt\<close>:
  for \<open>data.json\<close> the first run is named \<open>data.-temp-0.txt\<close>, where the
  specification names it \<open>data-temp-0.json\<close>; and for \<open>ab/c\<close> the runs are
  named \<open>-temp-0.txt\<close>, \<open>\<dots>\<close>, in the current directory and not in \<open>ab\<close>.
\<close>

theorem run_file_names_counterexample:
  "fst (sortSegments (sorter 1 7) ''data.json'' jsonInput) = Inr [''data.-temp-0.txt'']
   \<and> specRunName ''data.json'' 0 = ''data-temp-0.json''
   \<and> tempFilePath (fileNameNoEnd ''ab/c'') 0 = ''-temp-0.txt''
   \<and> parentDirectory ''ab/c'' = ''ab'' \<and> parentDirectory ''-temp-0.txt'' = []"
  by (simp add: jsonInput_def specRunName_def pathWithoutExtension_def extensionOf_def baseName_def
      parentDirectory_def seg_defs fs_defs str_defs ex_defs)

text \<open>
  C8, amended. For every input path, the run with index \<open>k\<close> that \<open>sortSegments\<close>
  returns is named by the input path without its last four characters, followed by
  \<open>-temp-\<close>, the decimal numeral of \<open>k\<close> (the indices start at 0 and increase by
  1) and \<open>.txt\<close>, and that file exists when \<open>sortSegments\<close> returns. When the input
  path ends in \<open>.txt\<close> this is the input path without its extension followed by
  \<open>-temp-k.txt\<close>, in the same directory as the input file.
\<close>

theorem run_file_names:
  assumes "sortSegments cfg inFilename fs = (Inr segs, fs')" and "k < length segs"
  shows "segs ! k = fileNameNoEnd inFilename @ ''-temp-'' @ decimal k @ ''.txt''
         \<and> files fs' (resolve fs' (segs ! k)) \<noteq> None
         \<and> (\<forall>base. inFilename = base @ ''.txt'' \<longrightarrow>
               segs ! k = base @ ''-temp-'' @ decimal k @ ''.txt''
               \<and> parentDirectory (segs ! k) = parentDirectory inFilename)"
proof -
  from sortSegments_result [OF assms(1)]
  have segs: "segs = map (tempFilePath (fileNameNoEnd inFilename)) [0..<length segs]"
    and ex: "\<forall>s\<in>set segs. files fs' (resolve fs' s) \<noteq> None"
    by (auto simp: unchangedNames_def)
  from segs assms(2) have "segs ! k = tempFilePath (fileNameNoEnd inFilename) ([0..<length segs] ! k)"
    by (metis length_map nth_map)
  with assms(2) have name: "segs ! k = fileNameNoEnd inFilename @ ''-temp-'' @ decimal k @ ''.txt''"
    by (simp add: tempFilePath_def TEMP_FILE_PREFIX_def TEMP_FILE_EXTENSION_def)
  have "CHR ''/'' \<notin> set (''-temp-'' @ decimal k @ ''.txt'')"
    using decimal_digits [of k] by auto
  then have "parentDirectory (base @ ''-temp-'' @ decimal k @ ''.txt'') = parentDirectory (base @ ''.txt'')"
    for base
    by (intro parentDirectory_suffix) simp_all
  moreover from ex assms(2) have "files fs' (resolve fs' (segs ! k)) \<noteq> None"
    by simp
  moreover have "fileNameNoEnd (base @ ''.txt'') = base" for base
    by (simp add: fileNameNoEnd_def)
  ultimately show ?thesis
    using name by auto
qed

text \<open>The amended C8 at the second run of a file of two records, one record per
  segment.\<close>

theorem run_file_names_witness:
  "fst (sortSegments (sorter 1 7) ''in.txt'' (inputAndOutput (''brian'' @ EOL @ ''alice'' @ EOL)))
     = Inr [''in-temp-0.txt'', ''in-temp-1.txt'']
   \<and> [''in-temp-0.txt'', ''in-temp-1.txt''] ! 1 = ''in'' @ ''-temp-'' @ decimal 1 @ ''.txt''
   \<and> parentDirectory ([''in-temp-0.txt'', ''in-temp-1.txt''] ! 1) = parentDirectory ''in.txt''"
proof -
  let ?fs = "inputAndOutput (''brian'' @ EOL @ ''alice'' @ EOL)"
  have g: "fst (sortSegments (sorter 1 7) ''in.txt'' ?fs) = Inr [''in-temp-0.txt'', ''in-temp-1.txt'']"
    by (simp add: seg_defs fs_defs str_defs ex_defs)
  then obtain fs' where s: "sortSegments (sorter 1 7) ''in.txt'' ?fs
      = (Inr [''in-temp-0.txt'', ''in-temp-1.txt''], fs')"
    by (cases "sortSegments (sorter 1 7) ''in.txt'' ?fs") simp
  from run_file_names [OF s, of 1] g show ?thesis by simp
qed

text \<open>
  C3, as stated, fails when the merge stage cannot open the output file: for an output
  path that is a directory, validation passes, the run is written, \<open>mergeSegments\<close>
  opens the run and fails to open the output, before its \<open>try\<close> block. The run file
  stays on storage and its handle stays open.
\<close>

theorem cleanup_skipped_counterexample:
  "fst (validateInput (sorter 1 7) ''in.txt'' ''out'' inputAndDirectory) = Inr ()
   \<and> fst (sortSegments (sorter 1 7) ''in.txt'' inputAndDirectory) = Inr [''in-temp-0.txt'']
   \<and> outcomeOf (Sort 1 (sorter 1 7) ''in.txt'' ''out'' inputAndDirectory) = Some (Inl IOFailure)
   \<and> fileAfter (Sort 1 (sorter 1 7) ''in.txt'' ''out'' inputAndDirectory) ''in-temp-0.txt''
       = Some (''abcde'' @ EOL)
   \<and> handlesAfter (Sort 1 (sorter 1 7) ''in.txt'' ''out'' inputAndDirectory) = {#''in-temp-0.txt''#}"
  by (simp add: obs_defs Sort_def val_defs seg_defs merge_defs fs_defs str_defs ex_defs)

text \<open>
  C3, amended. For a call of \<open>Sort\<close> that has passed validation and written its runs,
  in which \<open>mergeSegments\<close> opens every run file and the output file, and whose run
  files may be removed: whenever the call returns, whether \<open>performMerge\<close> has
  succeeded or failed, the handles that are open are those that were open before the
  call, and no run name of the call can be accessed any more; and the call does return
  when the file of the output handle is the file of none of the run handles.
\<close>

theorem merge_stage_cleans_up:
  assumes "fst (validateInput cfg inFilename outFilename fs) = Inr ()"
    and "sortSegments cfg inFilename fs = (Inr segments, fs1)"
    and "openSegments segments fs1 = (Inr fileHandles, fs2)"
    and "fsp_open_write outFilename fs2 = (Inr outFile, fs3)"
    and "\<forall>s\<in>set segments. resolve fs s \<notin> unlinkDenied fs"
  shows "(\<forall>fuel r fs'. Sort fuel cfg inFilename outFilename fs = Some (r, fs')
            \<longrightarrow> handles fs' = handles fs \<and> (\<forall>s\<in>set segments. \<not> fsp_access fs' s))
         \<and> (outFile \<notin> set fileHandles
            \<longrightarrow> (\<exists>fuel r fs'. Sort fuel cfg inFilename outFilename fs = Some (r, fs')))"
proof -
  from assms(1) validateInput_state [of cfg inFilename outFilename fs]
  have v: "validateInput cfg inFilename outFilename fs = (Inr (), fs)"
    by (cases "validateInput cfg inFilename outFilename fs") simp
  from sortSegments_result [OF assms(2)]
  have h1: "handles fs1 = handles fs" and u1: "unchangedNames fs fs1"
    and nodir: "\<forall>s\<in>set segments. dirs fs (resolve fs s) = None"
    by auto
  from openSegments_result [OF assms(3)]
  have h2: "handles fs2 = handles fs1 + mset fileHandles" and u2: "unchangedNames fs1 fs2"
    by auto
  from assms(4)
  have h3: "handles fs3 = add_mset outFile (handles fs2)" and u3: "unchangedNames fs2 fs3"
    by (auto simp: fsp_open_write_def unchangedNames_def split: if_splits)
  have sort: "Sort fuel cfg inFilename outFilename fs = mergeSegments fuel cfg segments outFilename fs1"
    for fuel
    using v assms(2) by (simp add: Sort_def)
  have "handles fs' = handles fs \<and> (\<forall>s\<in>set segments. \<not> fsp_access fs' s)"
    if "Sort fuel cfg inFilename outFilename fs = Some (r, fs')" for fuel r fs'
  proof -
    from that have m: "mergeSegments fuel cfg segments outFilename fs1 = Some (r, fs')"
      by (simp add: sort)
    with assms(3,4) obtain r0 fs4 where p: "performMerge fuel cfg fileHandles outFile fs3 = Some (r0, fs4)"
      by (auto simp: mergeSegments_def split: option.splits)
    obtain rc fs5 where c: "cleanupFiles fileHandles outFile segments fs4 = (rc, fs5)"
      by force
    from m assms(3,4) p c have fs': "fs' = fs5"
      by (auto simp: mergeSegments_def split: sum.splits)
    from performMerge_handles [OF p]
    have h4: "handles fs4 = handles fs3" and u4: "unchangedNames fs3 fs4"
      by simp_all
    from cleanupFiles_result [OF c]
    have h5: "handles fs5 = handles fs4 - mset fileHandles - {#outFile#}"
      and u5: "unchangedNames fs4 fs5"
      and gone: "\<forall>s\<in>set segments. resolve fs4 s \<notin> unlinkDenied fs4 \<longrightarrow> files fs5 (resolve fs4 s) = None"
      by simp_all
    from u1 u2 u3 u4 have same4: "resolve fs4 = resolve fs" "unlinkDenied fs4 = unlinkDenied fs"
      by (simp_all add: unchangedNames_def)
    from u1 u2 u3 u4 u5 have same5: "resolve fs5 = resolve fs" "dirs fs5 = dirs fs"
      by (simp_all add: unchangedNames_def)
    have "handles fs5 = handles fs"
      by (simp add: h5 h4 h3 h2 h1)
    moreover have "\<not> fsp_access fs5 s" if "s \<in> set segments" for s
      using that gone assms(5) nodir
      by (auto simp: fsp_access_def same4 same5)
    ultimately show ?thesis by (simp add: fs')
  qed
  moreover have "\<exists>fuel r fs'. Sort fuel cfg inFilename outFilename fs = Some (r, fs')"
    if "outFile \<notin> set fileHandles"
  proof -
    from performMerge_returns [OF that, where cfg = cfg and fs = fs3]
    obtain fuel r0 fs4 where "performMerge fuel cfg fileHandles outFile fs3 = Some (r0, fs4)"
      by auto
    with assms(3,4) have "\<exists>res. mergeSegments fuel cfg segments outFilename fs1 = Some res"
      by (auto simp: mergeSegments_def split: prod.splits sum.splits)
    then show ?thesis by (auto simp: sort)
  qed
  ultimately show ?thesis by blast
qed

text \<open>The amended C3 at a merge that fails: the file of C2, on which \<open>performMerge\<close>
  throws a \<open>TypeError\<close>.\<close>

theorem merge_stage_cleans_up_witness:
  "outcomeOf (Sort 1 (sorter 1 4) ''in.txt'' ''out.txt'' (inputAndOutput delFile)) = Some (Inl TypeError)
   \<and> handlesAfter (Sort 1 (sorter 1 4) ''in.txt'' ''out.txt'' (inputAndOutput delFile)) = {#}
   \<and> fileAfter (Sort 1 (sorter 1 4) ''in.txt'' ''out.txt'' (inputAndOutput delFile)) ''in-temp-0.txt'' = None"
proof -
  let ?fs = "inputAndOutput delFile"
  let ?fs1 = "?fs\<lparr>files := (files ?fs)(''in-temp-0.txt'' \<mapsto> delFile)\<rparr>"
  let ?fs2 = "?fs1\<lparr>handles := {#''in-temp-0.txt''#}\<rparr>"
  let ?fs3 = "?fs2\<lparr>files := (files ?fs2)(''out.txt'' \<mapsto> []),
      handles := {#''out.txt'', ''in-temp-0.txt''#}\<rparr>"
  have out: "outcomeOf (Sort 1 (sorter 1 4) ''in.txt'' ''out.txt'' ?fs) = Some (Inl TypeError)"
    by (simp add: obs_defs Sort_def val_defs seg_defs merge_defs fs_defs str_defs ex_defs)
  then obtain r fs' where s: "Sort 1 (sorter 1 4) ''in.txt'' ''out.txt'' ?fs = Some (r, fs')"
    by (auto simp: outcomeOf_def)
  have v: "fst (validateInput (sorter 1 4) ''in.txt'' ''out.txt'' ?fs) = Inr ()"
    by (simp add: val_defs fs_defs str_defs ex_defs)
  have g: "sortSegments (sorter 1 4) ''in.txt'' ?fs = (Inr [''in-temp-0.txt''], ?fs1)"
    by (simp add: seg_defs fs_defs str_defs ex_defs)
  have o: "openSegments [''in-temp-0.txt''] ?fs1 = (Inr [''in-temp-0.txt''], ?fs2)"
    by (simp add: fs_defs ex_defs)
  have w: "fsp_open_write ''out.txt'' ?fs2 = (Inr ''out.txt'', ?fs3)"
    by (simp add: fs_defs ex_defs)
  have u: "\<forall>s\<in>set [''in-temp-0.txt'']. resolve ?fs s \<notin> unlinkDenied ?fs"
    by (simp add: ex_defs)
  from merge_stage_cleans_up [OF v g o w u] s
  have "handles fs' = {#} \<and> \<not> fsp_access fs' ''in-temp-0.txt''"
    by (auto simp: inputAndOutput_def plainFiles_def)
  moreover from s have "resolve fs' = (\<lambda>p. p)"
    by (auto simp: Sort_def val_defs seg_defs merge_defs fs_defs str_defs ex_defs)
  ultimately show ?thesis
    using s out by (simp add: obs_defs fsp_access_def dom_def)
qed

end
